theory Spec2Isabelle
  imports Main "HOL-Library.Char_ord" "HOL-Library.List_Lexorder" "HOL-Library.Sublist"
    "HOL-Library.Multiset"
begin

section \<open>The data model of CatsTrie.py\<close>

text \<open>
  Python objects are mutable and shared: the list \<open>nodes_to_update\<close> and the field
  \<open>best_child\<close> hold references to nodes that are also reachable through \<open>links\<close>.
  The model therefore keeps the nodes in an explicit store. An address is a natural
  number, the store maps every address to a node, and \<open>next_free\<close> is the first
  address that no \<open>Node(...)\<close> call has handed out yet. A reference that is \<open>None\<close>
  in Python is \<open>None\<close> here, a reference to a node is \<open>Some\<close> of its address.
\<close>

datatype error = IndexError | AttributeError | TypeError

record node =
  links :: "nat option list"
  char :: char
  word :: "string option"
  word_freq :: int
  best_child :: "nat option"

text \<open>\<open>Node.__init__\<close>: 27 empty links, no word, frequency 0, no best child.\<close>

definition Node :: "char \<Rightarrow> node" where
  "Node c = \<lparr>links = replicate 27 None, char = c, word = None, word_freq = 0,
            best_child = None\<rparr>"

record trie =
  heap :: "nat \<Rightarrow> node"
  next_free :: nat
  root :: nat
  nodes_to_update :: "nat list option"

text \<open>
  \<open>ord(char) - 97 + 1\<close>, and the position a Python list of length \<open>n\<close> reads or
  writes for an index: negative indices count from the end, anything else out of
  range raises IndexError (\<open>None\<close> here).
\<close>

definition index_of :: "char \<Rightarrow> int" where
  "index_of c = of_char c - 97 + 1"

definition py_index :: "nat \<Rightarrow> int \<Rightarrow> nat option" where
  "py_index n i =
     (if 0 \<le> i \<and> i < int n then Some (nat i)
      else if - int n \<le> i \<and> i < 0 then Some (nat (int n + i))
      else None)"

section \<open>Insertion\<close>

text \<open>
  \<open>if current_node.links[index] is None: current_node.links[index] = Node(char)\<close>
  followed by the read of \<open>current_node.links[index]\<close>: the store and the allocation
  counter after the statement, and the child the read yields. \<open>Node(char)\<close> takes the
  address \<open>nf\<close>.
\<close>

definition child_or_new ::
  "(nat \<Rightarrow> node) \<Rightarrow> nat \<Rightarrow> nat \<Rightarrow> nat \<Rightarrow> char \<Rightarrow> (nat \<Rightarrow> node) \<times> nat \<times> nat" where
  "child_or_new h nf parent i c =
     (case links (h parent) ! i of
        None \<Rightarrow>
          (let h1 = h(nf := Node c)
           in (h1(parent := (h1 parent)\<lparr>links := (links (h1 parent))[i := Some nf]\<rparr>),
               Suc nf, nf))
      | Some child \<Rightarrow> (h, nf, child))"

text \<open>
  The \<open>for char in sentence\<close> loop of \<open>insert_iterative\<close>. Its variables are the
  store, the allocation counter, the list \<open>nodes_to_update\<close> and \<open>current_node\<close>.
\<close>

fun insert_loop ::
  "string \<Rightarrow> (nat \<Rightarrow> node) \<times> nat \<times> nat list \<times> nat
     \<Rightarrow> error + ((nat \<Rightarrow> node) \<times> nat \<times> nat list \<times> nat)" where
  "insert_loop [] st = Inr st"
| "insert_loop (c # cs) (h, nf, ntu, current_node) =
     (case py_index (length (links (h current_node))) (index_of c) of
        None \<Rightarrow> Inl IndexError
      | Some i \<Rightarrow>
          (case child_or_new h nf current_node i c of
             (h', nf', child) \<Rightarrow> insert_loop cs (h', nf', ntu @ [current_node], child)))"

text \<open>
  The first loop of \<open>update_nodes\<close>: a node without a best child gets the next node
  of the list as its best child and the frequency of the last node of the list.
\<close>

definition init_step :: "nat list \<Rightarrow> nat \<Rightarrow> (nat \<Rightarrow> node) \<Rightarrow> (nat \<Rightarrow> node)" where
  "init_step P i h =
     (let node = P ! i in
      if best_child (h node) = None then
        (let h1 = h(node := (h node)\<lparr>best_child := Some (P ! (i + 1))\<rparr>)
         in h1(node := (h1 node)\<lparr>word_freq := word_freq (h1 (last P))\<rparr>))
      else h)"

text \<open>
  One round of the second loop of \<open>update_nodes\<close>. Reading \<open>node.best_child.word_freq\<close>
  raises AttributeError when \<open>best_child\<close> is \<open>None\<close>.
\<close>

definition cmp_step ::
  "nat list \<Rightarrow> int \<Rightarrow> nat \<Rightarrow> (nat \<Rightarrow> node) \<Rightarrow> error + (nat \<Rightarrow> node)" where
  "cmp_step P inserted_word_freq i h =
     (let node = P ! i; new_child = P ! (i + 1) in
      case best_child (h node) of
        None \<Rightarrow> Inl AttributeError
      | Some bc \<Rightarrow>
          if inserted_word_freq > word_freq (h bc) then
            Inr (h(node := (h node)\<lparr>best_child := Some new_child,
                                    word_freq := inserted_word_freq\<rparr>))
          else if inserted_word_freq = word_freq (h bc)
                  \<and> char (h new_child) < char (h bc) then
            Inr (h(node := (h node)\<lparr>best_child := Some new_child\<rparr>))
          else Inr h)"

text \<open>A \<open>for\<close> loop whose body may raise: the first error ends the loop.\<close>

primrec for_each :: "('a \<Rightarrow> 's \<Rightarrow> error + 's) \<Rightarrow> 'a list \<Rightarrow> 's \<Rightarrow> error + 's" where
  "for_each f [] s = Inr s"
| "for_each f (x # xs) s = (case f x s of Inl e \<Rightarrow> Inl e | Inr s' \<Rightarrow> for_each f xs s')"

text \<open>
  \<open>update_nodes\<close>. \<open>range(len(P) - 1)\<close> is empty for a list of length 0 or 1;
  \<open>P[-1]\<close> raises IndexError on the empty list and \<open>P[-2]\<close> on a list shorter than 2;
  \<open>len(None)\<close> raises TypeError.
\<close>

definition update_nodes :: "trie \<Rightarrow> error + trie" where
  "update_nodes tr =
     (case nodes_to_update tr of
        None \<Rightarrow> Inl TypeError
      | Some P \<Rightarrow>
          (let h1 = fold (init_step P) [0 ..< length P - 1] (heap tr) in
           if P = [] then Inl IndexError
           else
             (let inserted_word_freq = word_freq (h1 (last P)) in
              case for_each (cmp_step P inserted_word_freq) [0 ..< length P - 1] h1 of
                Inl e \<Rightarrow> Inl e
              | Inr h2 \<Rightarrow>
                  if length P < 2 then Inl IndexError
                  else
                    (let parent = P ! (length P - 2) in
                     if inserted_word_freq > word_freq (h2 parent) then
                       Inr (tr\<lparr>heap := h2(parent :=
                                 (h2 parent)\<lparr>word_freq := inserted_word_freq\<rparr>)\<rparr>)
                     else Inr (tr\<lparr>heap := h2\<rparr>)))))"

text \<open>
  \<open>insert_iterative\<close> up to the call of \<open>update_nodes\<close>: the loop, the terminal
  node with its frequency and word, and the complete list \<open>nodes_to_update\<close>.
\<close>

definition insert_walk :: "trie \<Rightarrow> string \<Rightarrow> error + trie" where
  "insert_walk tr sentence =
     (case insert_loop sentence (heap tr, next_free tr, [], root tr) of
        Inl e \<Rightarrow> Inl e
      | Inr (h, nf, ntu, current_node) \<Rightarrow>
          (case py_index (length (links (h current_node))) 0 of
             None \<Rightarrow> Inl IndexError
           | Some z \<Rightarrow>
               (case child_or_new h nf current_node z (CHR ''$'') of
                  (h1, nf1, terminal_node) \<Rightarrow>
                    (let h2 = h1(terminal_node := (h1 terminal_node)
                                   \<lparr>word_freq := word_freq (h1 terminal_node) + 1\<rparr>);
                         h3 = h2(terminal_node := (h2 terminal_node)\<lparr>word := Some sentence\<rparr>)
                     in Inr (tr\<lparr>heap := h3, next_free := nf1,
                                nodes_to_update :=
                                  Some (ntu @ [current_node] @ [terminal_node])\<rparr>)))))"

definition insert_iterative :: "trie \<Rightarrow> string \<Rightarrow> error + trie" where
  "insert_iterative tr sentence =
     (case insert_walk tr sentence of Inl e \<Rightarrow> Inl e | Inr tr' \<Rightarrow> update_nodes tr')"

text \<open>\<open>CatsTrie.__init__\<close>: a root node, then every sentence in order.\<close>

definition empty_trie :: trie where
  "empty_trie = \<lparr>heap = (\<lambda>_. Node (CHR ''R'')), next_free = 1, root = 0,
                 nodes_to_update = None\<rparr>"

definition CatsTrie :: "string list \<Rightarrow> error + trie" where
  "CatsTrie sentences = for_each (\<lambda>s tr. insert_iterative tr s) sentences empty_trie"

section \<open>Query\<close>

text \<open>
  The \<open>for char in prompt\<close> loop of \<open>autoComplete\<close>: \<open>Inr None\<close> is the early
  \<open>return None\<close>, \<open>Inr (Some a)\<close> the node reached after the whole prompt.
\<close>

fun walk_prompt :: "(nat \<Rightarrow> node) \<Rightarrow> string \<Rightarrow> nat \<Rightarrow> error + nat option" where
  "walk_prompt h [] node = Inr (Some node)"
| "walk_prompt h (c # cs) node =
     (case py_index (length (links (h node))) (index_of c) of
        None \<Rightarrow> Inl IndexError
      | Some i \<Rightarrow>
          (case links (h node) ! i of
             None \<Rightarrow> Inr None
           | Some child \<Rightarrow> walk_prompt h cs child))"

text \<open>
  The \<open>while current.char != '$'\<close> loop. It may run forever on a store whose
  best-child references form a cycle, so it is a partial function: \<open>None\<close> is a loop
  that never returns, \<open>Some (Inl AttributeError)\<close> is \<open>current\<close> being \<open>None\<close>,
  \<open>Some (Inr w)\<close> is \<open>return current.word\<close>.
\<close>

partial_function (option) follow_best ::
  "(nat \<Rightarrow> node) \<Rightarrow> nat option \<Rightarrow> (error + string option) option" where
  "follow_best h current =
     (case current of
        None \<Rightarrow> Some (Inl AttributeError)
      | Some a \<Rightarrow>
          if char (h a) \<noteq> CHR ''$'' then follow_best h (best_child (h a))
          else Some (Inr (word (h a))))"

declare follow_best.simps [code]

definition autoComplete :: "trie \<Rightarrow> string \<Rightarrow> (error + string option) option" where
  "autoComplete tr prompt =
     (case walk_prompt (heap tr) prompt (root tr) of
        Inl e \<Rightarrow> Some (Inl e)
      | Inr None \<Rightarrow> Some (Inr None)
      | Inr (Some node) \<Rightarrow> follow_best (heap tr) (best_child (heap tr node)))"

section \<open>The query as a state transformer\<close>

text \<open>
  \<open>autoComplete\<close> once more, statement by statement, with the store as an explicit
  input and output of every statement. The body of the method touches the store only
  through attribute and subscript loads (\<open>node.links\<close>, \<open>node.best_child\<close>,
  \<open>current.char\<close>, \<open>current.best_child\<close>, \<open>current.word\<close>) and assigns only its local
  variables \<open>node\<close>, \<open>index\<close> and \<open>current\<close>. \<open>load\<close> is such a load: the value of a field
  of the node at an address, and the store after the load.
\<close>

definition load :: "(nat \<Rightarrow> node) \<Rightarrow> nat \<Rightarrow> (node \<Rightarrow> 'a) \<Rightarrow> 'a \<times> (nat \<Rightarrow> node)" where
  "load h a field = (field (h a), h)"

text \<open>
  The \<open>for char in prompt\<close> loop: \<open>node.links[index]\<close> is loaded for the test against
  \<open>None\<close> and loaded again for the assignment to \<open>node\<close>.
\<close>

fun walk_prompt_st ::
  "(nat \<Rightarrow> node) \<Rightarrow> string \<Rightarrow> nat \<Rightarrow> (error + nat option) \<times> (nat \<Rightarrow> node)" where
  "walk_prompt_st h [] node = (Inr (Some node), h)"
| "walk_prompt_st h (c # cs) node =
     (case load h node links of
        (ls, h1) \<Rightarrow>
          (case py_index (length ls) (index_of c) of
             None \<Rightarrow> (Inl IndexError, h1)
           | Some i \<Rightarrow>
               (case ls ! i of
                  None \<Rightarrow> (Inr None, h1)
                | Some _ \<Rightarrow>
                    (case load h1 node links of
                       (ls', h2) \<Rightarrow>
                         (case py_index (length ls') (index_of c) of
                            None \<Rightarrow> (Inl IndexError, h2)
                          | Some i' \<Rightarrow>
                              (case ls' ! i' of
                                 None \<Rightarrow> (Inl AttributeError, h2)
                               | Some child \<Rightarrow> walk_prompt_st h2 cs child))))))"

text \<open>
  The \<open>while current.char != '$'\<close> loop with \<open>return current.word\<close>. \<open>None\<close> is a loop
  that never returns.
\<close>

partial_function (option) follow_best_st ::
  "(nat \<Rightarrow> node) \<Rightarrow> nat option \<Rightarrow> ((error + string option) \<times> (nat \<Rightarrow> node)) option" where
  "follow_best_st h current =
     (case current of
        None \<Rightarrow> Some (Inl AttributeError, h)
      | Some a \<Rightarrow>
          (case load h a char of
             (ch, h1) \<Rightarrow>
               if ch \<noteq> CHR ''$'' then
                 (case load h1 a best_child of (b, h2) \<Rightarrow> follow_best_st h2 b)
               else
                 (case load h1 a word of (w, h2) \<Rightarrow> Some (Inr w, h2))))"

declare follow_best_st.simps [code]

text \<open>
  The whole method: the result of the call and the trie after it, or \<open>None\<close> when the
  call does not return.
\<close>

definition autoComplete_st :: "trie \<Rightarrow> string \<Rightarrow> ((error + string option) \<times> trie) option" where
  "autoComplete_st tr prompt =
     (case walk_prompt_st (heap tr) prompt (root tr) of
        (Inl e, h1) \<Rightarrow> Some (Inl e, tr\<lparr>heap := h1\<rparr>)
      | (Inr None, h1) \<Rightarrow> Some (Inr None, tr\<lparr>heap := h1\<rparr>)
      | (Inr (Some node), h1) \<Rightarrow>
          (case load h1 node best_child of
             (current, h2) \<Rightarrow>
               (case follow_best_st h2 current of
                  None \<Rightarrow> None
                | Some (r, h3) \<Rightarrow> Some (r, tr\<lparr>heap := h3\<rparr>))))"

text \<open>
  A list of queries, one after the other, each on the trie the previous one left:
  the results in order and the trie after the last query.
\<close>

fun queries :: "trie \<Rightarrow> string list \<Rightarrow> ((error + string option) list \<times> trie) option" where
  "queries tr [] = Some ([], tr)"
| "queries tr (p # ps) =
     (case autoComplete_st tr p of
        None \<Rightarrow> None
      | Some (r, tr1) \<Rightarrow>
          (case queries tr1 ps of
             None \<Rightarrow> None
           | Some (rs, tr2) \<Rightarrow> Some (r # rs, tr2)))"

section \<open>Definitions for the statements and proofs\<close>

definition lowercase :: "char \<Rightarrow> bool" where
  "lowercase c \<longleftrightarrow> CHR ''a'' \<le> c \<and> c \<le> CHR ''z''"

definition slot :: "char \<Rightarrow> nat" where
  "slot c = nat (index_of c)"

definition enc :: "string \<Rightarrow> nat list" where
  "enc s = map slot s @ [0]"

fun addr :: "(nat \<Rightarrow> node) \<Rightarrow> nat \<Rightarrow> nat list \<Rightarrow> nat option" where
  "addr h a [] = Some a"
| "addr h a (i # p) =
     (if i < length (links (h a)) then
        (case links (h a) ! i of None \<Rightarrow> None | Some b \<Rightarrow> addr h b p)
      else None)"

definition shape :: "(nat \<Rightarrow> node) \<Rightarrow> nat \<Rightarrow> nat \<Rightarrow> bool" where
  "shape h nf r \<longleftrightarrow>
     (\<forall>a. length (links (h a)) = 27) \<and>
     (\<forall>p a. addr h r p = Some a \<longrightarrow> a < nf) \<and>
     (\<forall>p q a. addr h r p = Some a \<longrightarrow> addr h r q = Some a \<longrightarrow> p = q)"

definition add_child :: "(nat \<Rightarrow> node) \<Rightarrow> nat \<Rightarrow> nat \<Rightarrow> nat \<Rightarrow> char \<Rightarrow> (nat \<Rightarrow> node)" where
  "add_child h nf cur i c =
     h(nf := Node c, cur := (h cur)\<lparr>links := (links (h cur))[i := Some nf]\<rparr>)"

text \<open>
  A node is consistent with the weights \<open>w\<close> of its children: either it has no best
  child yet, weighs nothing and so do its children, or its best child is one of its
  children, carries the node's own frequency, and no other child is better.
\<close>

definition node_ok :: "(nat \<Rightarrow> int) \<Rightarrow> node \<Rightarrow> bool" where
  "node_ok w n \<longleftrightarrow>
     (best_child n = None \<and> word_freq n = 0
        \<and> (\<forall>i<27. \<forall>b. links n ! i = Some b \<longrightarrow> w b = 0))
   \<or> (\<exists>j<27. \<exists>b. links n ! j = Some b \<and> best_child n = Some b \<and> word_freq n = w b
          \<and> 1 \<le> w b
          \<and> (\<forall>i<27. \<forall>c. links n ! i = Some c \<longrightarrow> w c < w b \<or> (w c = w b \<and> j \<le> i)))"

definition good :: "(nat \<Rightarrow> node) \<Rightarrow> nat \<Rightarrow> nat \<Rightarrow> bool" where
  "good h nf r \<longleftrightarrow>
     shape h nf r \<and>
     (\<forall>p a. addr h r p = Some a \<longrightarrow> 0 \<notin> set p \<longrightarrow>
        node_ok (\<lambda>x. word_freq (h x)) (h a) \<and> char (h a) \<noteq> CHR ''$'') \<and>
     (\<forall>p a. addr h r (p @ [0]) = Some a \<longrightarrow>
        char (h a) = CHR ''$'' \<and> best_child (h a) = None \<and> (\<forall>i<27. links (h a) ! i = None)) \<and>
     (\<forall>p i a. addr h r (p @ [i]) = Some a \<longrightarrow> i \<noteq> 0 \<longrightarrow>
        lowercase (char (h a)) \<and> slot (char (h a)) = i)"

text \<open>
  How the store after the walk of an insertion relates to the store before: every
  old path still leads to the same node, new paths lie in \<open>S\<close>, and the nodes that
  existed before keep every field except possibly \<open>links\<close>.
\<close>

definition ext :: "(nat \<Rightarrow> node) \<Rightarrow> nat \<Rightarrow> nat \<Rightarrow> (nat \<Rightarrow> node) \<Rightarrow> nat list set \<Rightarrow> bool" where
  "ext h nf r h' S \<longleftrightarrow>
     (\<forall>q a. addr h r q = Some a \<longrightarrow> addr h' r q = Some a) \<and>
     (\<forall>q. addr h r q = None \<longrightarrow> q \<notin> S \<longrightarrow> addr h' r q = None) \<and>
     (\<forall>a<nf. word_freq (h' a) = word_freq (h a) \<and> char (h' a) = char (h a)
          \<and> word (h' a) = word (h a) \<and> best_child (h' a) = best_child (h a))"

definition init_node :: "(nat \<Rightarrow> node) \<Rightarrow> nat list \<Rightarrow> nat \<Rightarrow> node" where
  "init_node h P i =
     (if best_child (h (P ! i)) = None
      then (h (P ! i))\<lparr>best_child := Some (P ! (i + 1)), word_freq := word_freq (h (last P))\<rparr>
      else h (P ! i))"

definition cmp_node :: "(nat \<Rightarrow> node) \<Rightarrow> nat list \<Rightarrow> int \<Rightarrow> nat \<Rightarrow> node" where
  "cmp_node h P f i =
     (case best_child (h (P ! i)) of
        None \<Rightarrow> h (P ! i)
      | Some bc \<Rightarrow>
          if f > word_freq (h bc) then (h (P ! i))\<lparr>best_child := Some (P ! (i + 1)), word_freq := f\<rparr>
          else if f = word_freq (h bc) \<and> char (h (P ! (i + 1))) < char (h bc)
          then (h (P ! i))\<lparr>best_child := Some (P ! (i + 1))\<rparr>
          else h (P ! i))"

text \<open>
  \<open>P\<close> is the list of nodes met on the path of the lowercase sentence \<open>s\<close>: the root,
  one node for each character, and the terminal node.
\<close>

definition on_path :: "(nat \<Rightarrow> node) \<Rightarrow> nat \<Rightarrow> nat \<Rightarrow> string \<Rightarrow> nat list \<Rightarrow> bool" where
  "on_path h nf r s P \<longleftrightarrow>
     good h nf r \<and> (\<forall>c\<in>set s. lowercase c) \<and> length P = length s + 2 \<and>
     (\<forall>i \<le> length s + 1. addr h r (take i (enc s)) = Some (P ! i))"

definition lower_all :: "string list \<Rightarrow> bool" where
  "lower_all ss \<longleftrightarrow> (\<forall>s\<in>set ss. \<forall>c\<in>set s. lowercase c)"

text \<open>
  The state of a trie that holds the sentences \<open>ss\<close>: the store is consistent, the
  paths that exist are the prefixes of the sentences' paths, every terminal node
  carries its sentence and the number of times it was inserted, and every other node
  on a sentence's path has a best child.
\<close>

definition inv :: "string list \<Rightarrow> trie \<Rightarrow> bool" where
  "inv ss tr \<longleftrightarrow>
     good (heap tr) (next_free tr) (root tr) \<and>
     (\<forall>p. addr (heap tr) (root tr) p \<noteq> None \<longleftrightarrow> p = [] \<or> (\<exists>s\<in>set ss. prefix p (enc s))) \<and>
     (\<forall>s\<in>set ss. \<forall>a. addr (heap tr) (root tr) (enc s) = Some a \<longrightarrow>
        word (heap tr a) = Some s \<and> word_freq (heap tr a) = int (count_list ss s)) \<and>
     (\<forall>p a. addr (heap tr) (root tr) p = Some a \<longrightarrow> 0 \<notin> set p \<longrightarrow> (p \<noteq> [] \<or> ss \<noteq> []) \<longrightarrow>
        best_child (heap tr a) \<noteq> None)"

text \<open>The node reached after following \<open>best_child\<close> \<open>n\<close> times.\<close>

fun nth_best :: "(nat \<Rightarrow> node) \<Rightarrow> nat \<Rightarrow> nat \<Rightarrow> nat option" where
  "nth_best h 0 a = Some a"
| "nth_best h (Suc n) a = (case best_child (h a) of None \<Rightarrow> None | Some b \<Rightarrow> nth_best h n b)"

definition better :: "string list \<Rightarrow> string \<Rightarrow> string \<Rightarrow> bool" where
  "better ss t u \<longleftrightarrow>
     count_list ss u < count_list ss t \<or> (count_list ss u = count_list ss t \<and> enc t \<le> enc u)"

text \<open>
  \<open>CatsTrie(sentences).autoComplete(prompt)\<close>: the constructor followed by one query.
  A fault of the constructor is the fault of the whole expression.
\<close>

definition build_and_query :: "string list \<Rightarrow> string \<Rightarrow> (error + string option) option" where
  "build_and_query sentences prompt =
     (case CatsTrie sentences of
        Inl e \<Rightarrow> Some (Inl e)
      | Inr tr \<Rightarrow> autoComplete tr prompt)"

text \<open>
  The cache repair as the specification words it, to be compared with \<open>update_nodes\<close>.
  The list \<open>P\<close> is the path of the insertion, its last element the terminal node. The
  specification speaks of the consecutive pairs \<open>(P[i], P[i+1])\<close>.
\<close>

definition consecutive_pairs :: "nat list \<Rightarrow> (nat \<times> nat) list" where
  "consecutive_pairs P = zip P (tl P)"

text \<open>
  Initialization pass, one pair: a node that has no best child yet gets the next node
  of the pair as its best child and the occurrence count of the terminal node.
\<close>

definition spec_init_pair :: "nat \<Rightarrow> nat \<times> nat \<Rightarrow> (nat \<Rightarrow> node) \<Rightarrow> (nat \<Rightarrow> node)" where
  "spec_init_pair terminal pr h =
     (case pr of (n, nxt) \<Rightarrow>
        if best_child (h n) = None
        then h(n := (h n)\<lparr>best_child := Some nxt, word_freq := word_freq (h terminal)\<rparr>)
        else h)"

text \<open>
  Comparison pass, one pair: \<open>f\<close> is compared with the occurrence count of the node's
  best child. A strictly greater \<open>f\<close> replaces the best child and sets the node's count
  to \<open>f\<close>; an equal \<open>f\<close> with a strictly smaller character of the next node replaces
  the best child only. The specification does not say what happens when the node has
  no best child; that case is \<open>None\<close>.
\<close>

definition spec_compare_pair ::
  "int \<Rightarrow> nat \<times> nat \<Rightarrow> (nat \<Rightarrow> node) \<Rightarrow> (nat \<Rightarrow> node) option" where
  "spec_compare_pair f pr h =
     (case pr of (n, nxt) \<Rightarrow>
        (case best_child (h n) of
           None \<Rightarrow> None
         | Some best \<Rightarrow>
             if f > word_freq (h best)
             then Some (h(n := (h n)\<lparr>best_child := Some nxt, word_freq := f\<rparr>))
             else if f = word_freq (h best) \<and> char (h nxt) < char (h best)
             then Some (h(n := (h n)\<lparr>best_child := Some nxt\<rparr>))
             else Some h))"

primrec spec_compare_pass ::
  "int \<Rightarrow> (nat \<times> nat) list \<Rightarrow> (nat \<Rightarrow> node) \<Rightarrow> (nat \<Rightarrow> node) option" where
  "spec_compare_pass f [] h = Some h"
| "spec_compare_pass f (pr # prs) h =
     (case spec_compare_pair f pr h of
        None \<Rightarrow> None
      | Some h' \<Rightarrow> spec_compare_pass f prs h')"

text \<open>
  Fixup of the parent of the terminal node: its occurrence count becomes \<open>f\<close> when \<open>f\<close>
  is strictly greater.
\<close>

definition spec_fixup :: "int \<Rightarrow> nat \<Rightarrow> (nat \<Rightarrow> node) \<Rightarrow> (nat \<Rightarrow> node)" where
  "spec_fixup f parent h =
     (if f > word_freq (h parent) then h(parent := (h parent)\<lparr>word_freq := f\<rparr>) else h)"

text \<open>
  The three steps in order, the comparison pass running over the pairs \<open>compared\<close>.
  \<open>spec_repair\<close> is the repair of the specification: the comparison pass leaves out
  the last pair, the one of the parent of the terminal node and the terminal node.
  \<open>spec_repair_all_pairs\<close> runs the comparison pass over every pair.
\<close>

definition spec_repair_on ::
  "(nat \<times> nat) list \<Rightarrow> nat list \<Rightarrow> (nat \<Rightarrow> node) \<Rightarrow> (nat \<Rightarrow> node) option" where
  "spec_repair_on compared P h =
     (let terminal = last P;
          h1 = fold (spec_init_pair terminal) (consecutive_pairs P) h;
          f = word_freq (h1 terminal)
      in case spec_compare_pass f compared h1 of
           None \<Rightarrow> None
         | Some h2 \<Rightarrow> Some (spec_fixup f (last (butlast P)) h2))"

definition spec_repair :: "nat list \<Rightarrow> (nat \<Rightarrow> node) \<Rightarrow> (nat \<Rightarrow> node) option" where
  "spec_repair P h = spec_repair_on (butlast (consecutive_pairs P)) P h"

definition spec_repair_all_pairs ::
  "nat list \<Rightarrow> (nat \<Rightarrow> node) \<Rightarrow> (nat \<Rightarrow> node) option" where
  "spec_repair_all_pairs P h = spec_repair_on (consecutive_pairs P) P h"

text \<open>
  The nodes on the path of a sentence: the root, one node for every character and
  the terminal node. They are the nodes that a prefix of the link indices of the
  sentence, the terminal link last, leads to from the root.
\<close>

definition on_sentence_path :: "trie \<Rightarrow> string \<Rightarrow> nat \<Rightarrow> bool" where
  "on_sentence_path tr s a \<longleftrightarrow>
     (\<exists>q\<in>set (prefixes (enc s)). addr (heap tr) (root tr) q = Some a)"

section \<open>Lemmas\<close>

lemma index_of_nat: "index_of c = int (of_char c) - 96"
  by (simp add: index_of_def of_nat_of_char)

lemma lowercase_slot:
  assumes "lowercase c"
  shows "py_index 27 (index_of c) = Some (slot c)" and "1 \<le> slot c" and "slot c \<le> 26"
  using assms
  by (auto simp: lowercase_def slot_def index_of_nat py_index_def less_eq_char_def)

lemma slot_inj: "lowercase c \<Longrightarrow> lowercase d \<Longrightarrow> slot c = slot d \<Longrightarrow> c = d"
proof -
  assume a: "lowercase c" "lowercase d" "slot c = slot d"
  define n m :: nat where "n = of_char c" and "m = of_char d"
  from a have "n = m"
    unfolding lowercase_def slot_def index_of_nat less_eq_char_def n_def [symmetric] m_def [symmetric]
    by simp arith
  then show "c = d" by (simp add: n_def m_def)
qed

lemma slot_less: "lowercase c \<Longrightarrow> lowercase d \<Longrightarrow> c < d \<longleftrightarrow> slot c < slot d"
  by (auto simp: lowercase_def slot_def index_of_nat less_eq_char_def less_char_def)

lemma dollar_less: "lowercase c \<Longrightarrow> CHR ''$'' < c"
  by (auto simp: lowercase_def less_eq_char_def less_char_def)

lemma addr_append:
  "addr h a (p @ q) = (case addr h a p of None \<Rightarrow> None | Some b \<Rightarrow> addr h b q)"
  by (induction p arbitrary: a) (auto split: option.splits)

lemma addr_snoc:
  "addr h a (p @ [i]) =
     (case addr h a p of None \<Rightarrow> None
      | Some b \<Rightarrow> if i < length (links (h b)) then links (h b) ! i else None)"
  by (auto simp: addr_append split: option.splits)

lemma shape_len: "shape h nf r \<Longrightarrow> length (links (h a)) = 27"
  by (simp add: shape_def)

lemma shape_lt: "shape h nf r \<Longrightarrow> addr h r p = Some a \<Longrightarrow> a < nf"
  by (auto simp: shape_def)

lemma shape_inj: "shape h nf r \<Longrightarrow> addr h r p = Some a \<Longrightarrow> addr h r q = Some a \<Longrightarrow> p = q"
  unfolding shape_def by blast

lemma child_or_new_old:
  "links (h cur) ! i = Some x \<Longrightarrow> child_or_new h nf cur i c = (h, nf, x)"
  by (simp add: child_or_new_def)

lemma child_or_new_new:
  "links (h cur) ! i = None \<Longrightarrow> cur \<noteq> nf \<Longrightarrow>
     child_or_new h nf cur i c = (add_child h nf cur i c, Suc nf, nf)"
  by (simp add: child_or_new_def add_child_def Let_def)

lemma addr_Node: "addr (h(nf := Node c)) nf q = (if q = [] then Some nf else None)"
  by (cases q) (auto simp: Node_def)

lemma path_split:
  "px @ j # q = p @ [i] \<Longrightarrow> (q = [] \<and> px = p \<and> j = i) \<or> (\<exists>q'. p = px @ j # q')"
  by (cases q rule: rev_cases) auto

lemma addr_add_child_gen:
  assumes sh: "shape h nf r" and cur: "addr h r p = Some cur" and i: "i < 27"
    and free: "links (h cur) ! i = None"
  shows "addr h r px = Some x \<Longrightarrow>
         addr (add_child h nf cur i c) x q = (if px @ q = p @ [i] then Some nf else addr h x q)"
proof (induction q arbitrary: x px)
  case Nil
  have "addr h r (p @ [i]) = None"
    using cur free i by (simp add: addr_snoc shape_len [OF sh])
  with Nil show ?case by auto
next
  case (Cons j q)
  let ?h = "add_child h nf cur i c"
  have xlt: "x < nf" using Cons.prems sh by (rule shape_lt [rotated])
  have curlt: "cur < nf" using cur sh by (rule shape_lt [rotated])
  have len: "length (links (?h x)) = 27"
    using xlt by (simp add: add_child_def shape_len [OF sh])
  show ?case
  proof (cases "j < 27")
    case False
    have "px @ j # q \<noteq> p @ [i]"
    proof
      assume "px @ j # q = p @ [i]"
      from path_split [OF this] show False
      proof (elim disjE conjE exE)
        assume "j = i" with False i show False by simp
      next
        fix q' assume "p = px @ j # q'"
        with False cur Cons.prems show False
          by (simp add: addr_append shape_len [OF sh])
      qed
    qed
    with False len show ?thesis by (simp add: shape_len [OF sh])
  next
    case j: True
    show ?thesis
    proof (cases "x = cur \<and> j = i")
      case True
      then have px: "px = p" using shape_inj [OF sh Cons.prems] cur by simp
      have lk: "links (?h x) ! j = Some nf"
        using True i by (simp add: add_child_def shape_len [OF sh])
      have "addr ?h nf q = (if q = [] then Some nf else None)"
        using curlt addr_Node [of h nf c q]
        by (cases q) (auto simp: add_child_def Node_def)
      moreover have "addr h x (j # q) = None"
        using True free i by (simp add: shape_len [OF sh])
      ultimately show ?thesis using lk len j px True by simp
    next
      case False
      have lk: "links (?h x) ! j = links (h x) ! j"
        using False xlt by (auto simp: add_child_def)
      show ?thesis
      proof (cases "links (h x) ! j")
        case None
        have "px @ j # q \<noteq> p @ [i]"
        proof
          assume "px @ j # q = p @ [i]"
          from path_split [OF this] show False
          proof (elim disjE conjE exE)
            assume "px = p" "j = i"
            with Cons.prems cur False show False by simp
          next
            fix q' assume "p = px @ j # q'"
            with None cur Cons.prems j show False
              by (simp add: addr_append shape_len [OF sh])
          qed
        qed
        with None lk len j show ?thesis by (simp add: shape_len [OF sh])
      next
        case (Some y)
        have "addr h r (px @ [j]) = Some y"
          using Cons.prems Some j by (simp add: addr_snoc shape_len [OF sh])
        from Cons.IH [OF this] Some lk len j show ?thesis
          by (simp add: shape_len [OF sh])
      qed
    qed
  qed
qed

lemma addr_add_child:
  assumes sh: "shape h nf r" and cur: "addr h r p = Some cur" and i: "i < 27"
    and free: "links (h cur) ! i = None"
  shows "addr (add_child h nf cur i c) r q = (if q = p @ [i] then Some nf else addr h r q)"
  using addr_add_child_gen [OF sh cur i free, of "[]" r c q] by simp

lemma shape_add_child:
  assumes sh: "shape h nf r" and cur: "addr h r p = Some cur" and i: "i < 27"
    and free: "links (h cur) ! i = None"
  shows "shape (add_child h nf cur i c) (Suc nf) r"
proof -
  note A = addr_add_child [OF sh cur i free]
  have len: "\<forall>a. length (links (add_child h nf cur i c a)) = 27"
    by (simp add: add_child_def shape_len [OF sh] Node_def)
  have lt: "\<forall>q a. addr (add_child h nf cur i c) r q = Some a \<longrightarrow> a < Suc nf"
    using shape_lt [OF sh] by (auto simp: A less_Suc_eq split: if_splits)
  have inj: "\<forall>q q' a. addr (add_child h nf cur i c) r q = Some a
               \<longrightarrow> addr (add_child h nf cur i c) r q' = Some a \<longrightarrow> q = q'"
  proof (intro allI impI)
    fix q q' a
    assume 1: "addr (add_child h nf cur i c) r q = Some a"
      and 2: "addr (add_child h nf cur i c) r q' = Some a"
    show "q = q'"
    proof (cases "q = p @ [i]")
      case True
      with 1 have "a = nf" by (simp add: A)
      with 2 shape_lt [OF sh, of q' nf] have "q' = p @ [i]"
        by (auto simp: A split: if_splits)
      with True show ?thesis by simp
    next
      case False
      with 1 have a: "addr h r q = Some a" by (simp add: A)
      then have "a < nf" by (rule shape_lt [OF sh])
      with 2 have "addr h r q' = Some a" by (auto simp: A split: if_splits)
      with a show ?thesis by (rule shape_inj [OF sh])
    qed
  qed
  from len lt inj show ?thesis unfolding shape_def by blast
qed

lemma good_shape: "good h nf r \<Longrightarrow> shape h nf r"
  by (simp add: good_def)

lemma good_internal:
  "good h nf r \<Longrightarrow> addr h r p = Some a \<Longrightarrow> 0 \<notin> set p \<Longrightarrow>
     node_ok (\<lambda>x. word_freq (h x)) (h a) \<and> char (h a) \<noteq> CHR ''$''"
  unfolding good_def by blast

lemma good_terminal:
  "good h nf r \<Longrightarrow> addr h r (p @ [0]) = Some a \<Longrightarrow>
     char (h a) = CHR ''$'' \<and> best_child (h a) = None \<and> (\<forall>i<27. links (h a) ! i = None)"
  unfolding good_def by blast

lemma good_letter:
  "good h nf r \<Longrightarrow> addr h r (p @ [i]) = Some a \<Longrightarrow> i \<noteq> 0 \<Longrightarrow>
     lowercase (char (h a)) \<and> slot (char (h a)) = i"
  unfolding good_def by blast

lemma node_ok_weights:
  "node_ok w n \<Longrightarrow> (\<forall>i<27. \<forall>b. links n ! i = Some b \<longrightarrow> w' b = w b) \<Longrightarrow> node_ok w' n"
  unfolding node_ok_def by (elim disjE; simp) metis

lemma node_ok_new_child:
  assumes ok: "node_ok w n" and i: "i < 27" and len: "length (links n) = 27"
    and free: "links n ! i = None" and w: "w x = 0"
  shows "node_ok w (n\<lparr>links := (links n)[i := Some x]\<rparr>)"
  using ok [unfolded node_ok_def]
proof (elim disjE conjE exE)
  assume "best_child n = None" "word_freq n = 0"
    "\<forall>i<27. \<forall>b. links n ! i = Some b \<longrightarrow> w b = 0"
  then show "?thesis" unfolding node_ok_def
    using w len i by (auto simp: nth_list_update split: if_splits)
next
  fix j b
  assume j: "j < 27" "links n ! j = Some b" "best_child n = Some b" "word_freq n = w b"
    "1 \<le> w b" "\<forall>i<27. \<forall>c. links n ! i = Some c \<longrightarrow> w c < w b \<or> (w c = w b \<and> j \<le> i)"
  then have ji: "j \<noteq> i" using free by auto
  have "\<forall>i'<27. \<forall>c. (links n)[i := Some x] ! i' = Some c \<longrightarrow> w c < w b \<or> (w c = w b \<and> j \<le> i')"
    using j w len i by (auto simp: nth_list_update split: if_splits)
  moreover have "(links n)[i := Some x] ! j = Some b" using ji j by simp
  ultimately show ?thesis unfolding node_ok_def using j by auto
qed

lemma add_child_fields:
  "cur \<noteq> nf \<Longrightarrow> word_freq (add_child h nf cur i c a) = (if a = nf then 0 else word_freq (h a))"
  "cur \<noteq> nf \<Longrightarrow> char (add_child h nf cur i c a) = (if a = nf then c else char (h a))"
  "cur \<noteq> nf \<Longrightarrow> best_child (add_child h nf cur i c a) = (if a = nf then None else best_child (h a))"
  "cur \<noteq> nf \<Longrightarrow> word (add_child h nf cur i c a) = (if a = nf then None else word (h a))"
  "cur \<noteq> nf \<Longrightarrow> links (add_child h nf cur i c a) =
      (if a = nf then replicate 27 None
       else if a = cur then (links (h a))[i := Some nf] else links (h a))"
  by (auto simp: add_child_def Node_def)

lemma node_ok_Node: "node_ok w (Node c)"
  by (simp add: node_ok_def Node_def)

lemma good_add_child:
  assumes g: "good h nf r" and cur: "addr h r p = Some cur" and p0: "0 \<notin> set p"
    and i: "i < 27" and free: "links (h cur) ! i = None"
    and c: "(i = 0 \<and> c = CHR ''$'') \<or> (i \<noteq> 0 \<and> lowercase c \<and> slot c = i)"
  shows "good (add_child h nf cur i c) (Suc nf) r"
proof -
  let ?h = "add_child h nf cur i c"
  note sh = good_shape [OF g]
  note A = addr_add_child [OF sh cur i free]
  have curlt: "cur < nf" using cur by (rule shape_lt [OF sh])
  then have ne: "cur \<noteq> nf" by simp
  note F = add_child_fields [OF ne]
  have hnf: "?h nf = Node c" using ne by (simp add: add_child_def)
  have other: "\<And>a. a \<noteq> nf \<Longrightarrow> a \<noteq> cur \<Longrightarrow> ?h a = h a" by (simp add: add_child_def)
  have w_old: "\<And>a. a < nf \<Longrightarrow> word_freq (?h a) = word_freq (h a)" by (simp add: F)
  have child_lt: "\<And>q a j b. addr h r q = Some a \<Longrightarrow> j < 27 \<Longrightarrow> links (h a) ! j = Some b \<Longrightarrow> b < nf"
  proof -
    fix q a j b assume "addr h r q = Some a" "j < 27" "links (h a) ! j = Some b"
    then have "addr h r (q @ [j]) = Some b" by (simp add: addr_snoc shape_len [OF sh])
    then show "b < nf" by (rule shape_lt [OF sh])
  qed
  have internal: "\<forall>q a. addr ?h r q = Some a \<longrightarrow> 0 \<notin> set q \<longrightarrow>
        node_ok (\<lambda>x. word_freq (?h x)) (?h a) \<and> char (?h a) \<noteq> CHR ''$''"
  proof (intro allI impI)
    fix q a assume q: "addr ?h r q = Some a" and q0: "0 \<notin> set q"
    show "node_ok (\<lambda>x. word_freq (?h x)) (?h a) \<and> char (?h a) \<noteq> CHR ''$''"
    proof (cases "q = p @ [i]")
      case True
      with q have a: "a = nf" by (simp add: A)
      from True q0 have "i \<noteq> 0" by auto
      with c have "lowercase c" by simp
      then have "c \<noteq> CHR ''$''" using dollar_less [of c] by auto
      with a hnf show ?thesis by (simp add: node_ok_Node) (simp add: Node_def)
    next
      case False
      with q have qa: "addr h r q = Some a" by (simp add: A)
      then have alt: "a < nf" by (rule shape_lt [OF sh])
      from good_internal [OF g qa q0]
      have ok: "node_ok (\<lambda>x. word_freq (h x)) (h a)" and ch: "char (h a) \<noteq> CHR ''$''" by simp_all
      have ok': "node_ok (\<lambda>x. word_freq (?h x)) (h a)"
        by (rule node_ok_weights [OF ok]) (auto simp: w_old dest: child_lt [OF qa])
      show ?thesis
      proof (cases "a = cur")
        case True
        have "node_ok (\<lambda>x. word_freq (?h x)) ((h cur)\<lparr>links := (links (h cur))[i := Some nf]\<rparr>)"
          using ok' True i free by (intro node_ok_new_child) (simp_all add: shape_len [OF sh] F)
        moreover have "?h cur = (h cur)\<lparr>links := (links (h cur))[i := Some nf]\<rparr>"
          by (simp add: add_child_def)
        moreover have "char (?h cur) = char (h cur)" using ne by (simp add: F)
        ultimately show ?thesis using True ch by simp
      next
        case False
        with alt have "?h a = h a" by (simp add: other)
        with ok' ch show ?thesis by simp
      qed
    qed
  qed
  have terminal: "\<forall>q a. addr ?h r (q @ [0]) = Some a \<longrightarrow>
        char (?h a) = CHR ''$'' \<and> best_child (?h a) = None \<and> (\<forall>i<27. links (?h a) ! i = None)"
  proof (intro allI impI)
    fix q a assume q: "addr ?h r (q @ [0]) = Some a"
    show "char (?h a) = CHR ''$'' \<and> best_child (?h a) = None \<and> (\<forall>i<27. links (?h a) ! i = None)"
    proof (cases "q @ [0] = p @ [i]")
      case True
      with q have "a = nf" by (simp add: A)
      moreover from True c have "c = CHR ''$''" by auto
      ultimately show ?thesis using hnf by (simp add: Node_def)
    next
      case False
      with q have qa: "addr h r (q @ [0]) = Some a" by (auto simp: A split: if_splits)
      then have alt: "a < nf" by (rule shape_lt [OF sh])
      have "a \<noteq> cur"
      proof
        assume "a = cur"
        with qa cur have "q @ [0] = p" using shape_inj [OF sh] by blast
        with p0 show False by auto
      qed
      with alt have "?h a = h a" by (simp add: other)
      with good_terminal [OF g qa] show ?thesis by simp
    qed
  qed
  have letter: "\<forall>q j a. addr ?h r (q @ [j]) = Some a \<longrightarrow> j \<noteq> 0 \<longrightarrow>
        lowercase (char (?h a)) \<and> slot (char (?h a)) = j"
  proof (intro allI impI)
    fix q j a assume q: "addr ?h r (q @ [j]) = Some a" and j: "j \<noteq> 0"
    show "lowercase (char (?h a)) \<and> slot (char (?h a)) = j"
    proof (cases "q @ [j] = p @ [i]")
      case True
      with q have "a = nf" by (simp add: A)
      moreover from True have "j = i" by simp
      ultimately show ?thesis using hnf c j by (simp add: Node_def)
    next
      case False
      with q have qa: "addr h r (q @ [j]) = Some a" by (auto simp: A split: if_splits)
      then have alt: "a < nf" by (rule shape_lt [OF sh])
      with good_letter [OF g qa j] show ?thesis by (simp add: F)
    qed
  qed
  from shape_add_child [OF sh cur i free] internal terminal letter
  show ?thesis unfolding good_def by blast
qed

lemma ext_refl: "ext h nf r h S"
  by (simp add: ext_def)

lemma ext_trans:
  "ext h nf r h1 S1 \<Longrightarrow> ext h1 nf1 r h2 S2 \<Longrightarrow> nf \<le> nf1 \<Longrightarrow> S1 \<union> S2 \<subseteq> S \<Longrightarrow> ext h nf r h2 S"
proof -
  assume a: "ext h nf r h1 S1" and b: "ext h1 nf1 r h2 S2" and le: "nf \<le> nf1"
    and sub: "S1 \<union> S2 \<subseteq> S"
  have 1: "\<forall>q a. addr h r q = Some a \<longrightarrow> addr h2 r q = Some a"
    using a b by (simp add: ext_def)
  have 2: "\<forall>q. addr h r q = None \<longrightarrow> q \<notin> S \<longrightarrow> addr h2 r q = None"
  proof (intro allI impI)
    fix q assume "addr h r q = None" "q \<notin> S"
    with sub have "addr h r q = None" "q \<notin> S1" "q \<notin> S2" by auto
    with a have "addr h1 r q = None" by (simp add: ext_def)
    with b \<open>q \<notin> S2\<close> show "addr h2 r q = None" by (simp add: ext_def)
  qed
  have 3: "\<forall>a<nf. word_freq (h2 a) = word_freq (h a) \<and> char (h2 a) = char (h a)
          \<and> word (h2 a) = word (h a) \<and> best_child (h2 a) = best_child (h a)"
  proof (intro allI impI)
    fix x assume "x < nf"
    with le have "x < nf1" by simp
    with a b \<open>x < nf\<close> show "word_freq (h2 x) = word_freq (h x) \<and> char (h2 x) = char (h x)
          \<and> word (h2 x) = word (h x) \<and> best_child (h2 x) = best_child (h x)"
      by (simp add: ext_def)
  qed
  from 1 2 3 show ?thesis unfolding ext_def by blast
qed

lemma child_or_new_good:
  assumes g: "good h nf r" and cur: "addr h r p = Some cur" and p0: "0 \<notin> set p"
    and i: "i < 27"
    and c: "(i = 0 \<and> c = CHR ''$'') \<or> (i \<noteq> 0 \<and> lowercase c \<and> slot c = i)"
  shows "\<exists>h1 nf1 x. child_or_new h nf cur i c = (h1, nf1, x) \<and> good h1 nf1 r \<and> nf \<le> nf1
           \<and> addr h1 r (p @ [i]) = Some x \<and> ext h nf r h1 {p @ [i]}
           \<and> (addr h r (p @ [i]) = None \<longrightarrow> h1 x = Node c)"
proof (cases "links (h cur) ! i")
  case (Some x)
  have "addr h r (p @ [i]) = Some x"
    using cur Some i by (simp add: addr_snoc shape_len [OF good_shape [OF g]])
  moreover have "child_or_new h nf cur i c = (h, nf, x)"
    using Some by (simp add: child_or_new_def)
  ultimately show ?thesis using g by (simp add: ext_refl)
next
  case None
  note sh = good_shape [OF g]
  have ne: "cur \<noteq> nf" using shape_lt [OF sh cur] by simp
  note A = addr_add_child [OF sh cur i None]
  have no: "addr h r (p @ [i]) = None"
    using cur None i by (simp add: addr_snoc shape_len [OF sh])
  have "ext h nf r (add_child h nf cur i c) {p @ [i]}"
    unfolding ext_def using ne no by (auto simp: A add_child_fields)
  moreover have "add_child h nf cur i c nf = Node c" using ne by (simp add: add_child_def)
  ultimately show ?thesis
    using child_or_new_new [of h cur i nf c] None ne good_add_child [OF g cur p0 i None c]
    by (simp add: A)
qed

lemma insert_loop_good:
  assumes "good h nf r" and "addr h r p = Some cur" and "0 \<notin> set p"
    and "\<forall>c\<in>set cs. lowercase c"
  shows "\<exists>h' nf' Q cur'. insert_loop cs (h, nf, ntu, cur) = Inr (h', nf', ntu @ Q, cur')
           \<and> good h' nf' r \<and> nf \<le> nf' \<and> length Q = length cs
           \<and> (\<forall>i\<le>length cs. addr h' r (p @ map slot (take i cs)) = Some ((Q @ [cur']) ! i))
           \<and> ext h nf r h' {p @ map slot (take i cs) | i. i \<le> length cs}"
  using assms
proof (induction cs arbitrary: h nf ntu cur p)
  case Nil
  then show ?case by (simp add: ext_refl)
next
  case (Cons c cs)
  from Cons.prems have lc: "lowercase c" by simp
  note sl = lowercase_slot [OF lc]
  have i27: "slot c < 27" using sl by simp
  have cc: "(slot c = 0 \<and> c = CHR ''$'') \<or> (slot c \<noteq> 0 \<and> lowercase c \<and> slot c = slot c)"
    using sl lc by simp
  from child_or_new_good [OF Cons.prems(1-3) i27 cc]
  obtain h1 nf1 x where step: "child_or_new h nf cur (slot c) c = (h1, nf1, x)"
    and g1: "good h1 nf1 r" and le1: "nf \<le> nf1"
    and ax: "addr h1 r (p @ [slot c]) = Some x" and e1: "ext h nf r h1 {p @ [slot c]}"
    by blast
  have p1: "0 \<notin> set (p @ [slot c])" using Cons.prems(3) sl by simp
  from Cons.IH [OF g1 ax p1, of "ntu @ [cur]"] Cons.prems(4)
  obtain h' nf' Q cur' where
    loop: "insert_loop cs (h1, nf1, (ntu @ [cur]), x) = Inr (h', nf', (ntu @ [cur]) @ Q, cur')"
    and g': "good h' nf' r" and le': "nf1 \<le> nf'" and lenQ: "length Q = length cs"
    and paths: "\<forall>i\<le>length cs. addr h' r ((p @ [slot c]) @ map slot (take i cs)) = Some ((Q @ [cur']) ! i)"
    and e2: "ext h1 nf1 r h' {(p @ [slot c]) @ map slot (take i cs) | i. i \<le> length cs}"
    by auto
  have len: "length (links (h cur)) = 27" by (rule shape_len [OF good_shape [OF Cons.prems(1)]])
  have run: "insert_loop (c # cs) (h, nf, ntu, cur) = Inr (h', nf', ntu @ (cur # Q), cur')"
    using loop step sl(1) len by simp
  have cur1: "addr h1 r p = Some cur" using e1 Cons.prems(2) by (simp add: ext_def)
  have cur': "addr h' r p = Some cur" using e2 cur1 by (simp add: ext_def)
  have paths': "\<forall>i\<le>length (c # cs). addr h' r (p @ map slot (take i (c # cs))) = Some (((cur # Q) @ [cur']) ! i)"
  proof (intro allI impI)
    fix i assume "i \<le> length (c # cs)"
    then show "addr h' r (p @ map slot (take i (c # cs))) = Some (((cur # Q) @ [cur']) ! i)"
      using paths cur' by (cases i) auto
  qed
  have sub: "{p @ [slot c]} \<union> {(p @ [slot c]) @ map slot (take i cs) | i. i \<le> length cs}
              \<subseteq> {p @ map slot (take i (c # cs)) | i. i \<le> length (c # cs)}"
  proof
    fix q assume "q \<in> {p @ [slot c]} \<union> {(p @ [slot c]) @ map slot (take i cs) | i. i \<le> length cs}"
    then have "\<exists>i. i \<le> length cs \<and> q = (p @ [slot c]) @ map slot (take i cs)"
    proof
      assume "q \<in> {p @ [slot c]}"
      then have "0 \<le> length cs \<and> q = (p @ [slot c]) @ map slot (take 0 cs)" by simp
      then show ?thesis by (rule exI)
    next
      assume "q \<in> {(p @ [slot c]) @ map slot (take i cs) | i. i \<le> length cs}"
      then show ?thesis by blast
    qed
    then obtain i where "i \<le> length cs" "q = (p @ [slot c]) @ map slot (take i cs)"
      by (elim exE conjE)
    then have "Suc i \<le> length (c # cs) \<and> q = p @ map slot (take (Suc i) (c # cs))" by simp
    then show "q \<in> {p @ map slot (take i (c # cs)) | i. i \<le> length (c # cs)}" by blast
  qed
  have "ext h nf r h' {p @ map slot (take i (c # cs)) | i. i \<le> length (c # cs)}"
    by (rule ext_trans [OF e1 e2 le1 sub])
  with run g' le1 le' lenQ paths' show ?case
    by (intro exI [of _ h'] exI [of _ nf'] exI [of _ "cur # Q"] exI [of _ cur']) simp
qed

lemma slot_nonzero: "\<forall>c\<in>set s. lowercase c \<Longrightarrow> 0 \<notin> set (map slot s)"
  using lowercase_slot(2) by fastforce

lemma take_enc: "i \<le> length s \<Longrightarrow> take i (enc s) = map slot (take i s)"
  by (simp add: enc_def take_map)

lemma take_enc_all: "take (Suc (length s)) (enc s) = enc s"
  by (simp add: enc_def)

lemma insert_walk_good:
  assumes g: "good (heap tr) (next_free tr) (root tr)" and lc: "\<forall>c\<in>set s. lowercase c"
  shows "\<exists>hA nfA P.
     insert_walk tr s =
       Inr (tr\<lparr>heap := hA(last P := (hA (last P))\<lparr>word_freq := word_freq (hA (last P)) + 1,
                                                  word := Some s\<rparr>),
               next_free := nfA, nodes_to_update := Some P\<rparr>)
     \<and> good hA nfA (root tr) \<and> next_free tr \<le> nfA \<and> length P = length s + 2
     \<and> (\<forall>i \<le> length s + 1. addr hA (root tr) (take i (enc s)) = Some (P ! i))
     \<and> ext (heap tr) (next_free tr) (root tr) hA {take i (enc s) | i. i \<le> length s + 1}
     \<and> (addr (heap tr) (root tr) (enc s) = None \<longrightarrow> word_freq (hA (last P)) = 0)"
proof -
  let ?h = "heap tr" and ?nf = "next_free tr" and ?r = "root tr"
  have r0: "addr ?h ?r [] = Some ?r" by simp
  from insert_loop_good [OF g r0 _ lc, of "[]"]
  obtain h' nf' Q cur' where
    loop: "insert_loop s (?h, ?nf, [], ?r) = Inr (h', nf', Q, cur')"
    and g': "good h' nf' ?r" and le': "?nf \<le> nf'" and lenQ: "length Q = length s"
    and paths: "\<forall>i\<le>length s. addr h' ?r (map slot (take i s)) = Some ((Q @ [cur']) ! i)"
    and e1: "ext ?h ?nf ?r h' {[] @ map slot (take i s) | i. i \<le> length s}"
    by auto
  have cur': "addr h' ?r (map slot s) = Some cur'"
    using paths [rule_format, of "length s"] lenQ by (simp add: nth_append)
  have cz: "(0 = 0 \<and> CHR ''$'' = CHR ''$'') \<or> ((0::nat) \<noteq> 0 \<and> lowercase (CHR ''$'') \<and> slot (CHR ''$'') = 0)"
    by simp
  from child_or_new_good [OF g' cur' slot_nonzero [OF lc] _ cz]
  obtain h1 nf1 T where step: "child_or_new h' nf' cur' 0 (CHR ''$'') = (h1, nf1, T)"
    and g1: "good h1 nf1 ?r" and le1: "nf' \<le> nf1"
    and aT: "addr h1 ?r (map slot s @ [0]) = Some T"
    and e2: "ext h' nf' ?r h1 {map slot s @ [0]}"
    and new: "addr h' ?r (map slot s @ [0]) = None \<longrightarrow> h1 T = Node (CHR ''$'')"
    by auto
  let ?P = "Q @ [cur'] @ [T]"
  have "length (links (h' cur')) = 27" by (rule shape_len [OF good_shape [OF g']])
  then have len: "py_index (length (links (h' cur'))) 0 = Some 0" by (simp add: py_index_def)
  have run: "insert_walk tr s =
       Inr (tr\<lparr>heap := h1(last ?P := (h1 (last ?P))\<lparr>word_freq := word_freq (h1 (last ?P)) + 1,
                                                  word := Some s\<rparr>),
               next_free := nf1, nodes_to_update := Some ?P\<rparr>)"
    using loop step len by (simp add: insert_walk_def Let_def)
  have pathsP: "\<forall>i \<le> length s + 1. addr h1 ?r (take i (enc s)) = Some (?P ! i)"
  proof (intro allI impI)
    fix i assume i: "i \<le> length s + 1"
    show "addr h1 ?r (take i (enc s)) = Some (?P ! i)"
    proof (cases "i \<le> length s")
      case True
      then have "addr h' ?r (take i (enc s)) = Some ((Q @ [cur']) ! i)"
        using paths by (simp add: take_enc)
      then have "addr h1 ?r (take i (enc s)) = Some ((Q @ [cur']) ! i)"
        using e2 by (simp add: ext_def)
      moreover have "?P ! i = (Q @ [cur']) ! i"
        using True lenQ by (simp add: nth_append)
      ultimately show ?thesis by simp
    next
      case False
      with i have "i = Suc (length s)" by simp
      then show ?thesis using aT lenQ by (simp add: take_enc_all enc_def nth_append)
    qed
  qed
  have sub: "{[] @ map slot (take i s) | i. i \<le> length s} \<union> {map slot s @ [0]}
               \<subseteq> {take i (enc s) | i. i \<le> length s + 1}"
  proof
    fix q assume "q \<in> {[] @ map slot (take i s) | i. i \<le> length s} \<union> {map slot s @ [0]}"
    then show "q \<in> {take i (enc s) | i. i \<le> length s + 1}"
    proof
      assume "q \<in> {[] @ map slot (take i s) | i. i \<le> length s}"
      then obtain i where "i \<le> length s" "q = map slot (take i s)" by auto
      then have "q = take i (enc s) \<and> i \<le> length s + 1" by (simp add: take_enc)
      then show ?thesis by blast
    next
      assume "q \<in> {map slot s @ [0]}"
      then have "q = take (Suc (length s)) (enc s) \<and> Suc (length s) \<le> length s + 1"
        by (simp add: enc_def)
      then show ?thesis by blast
    qed
  qed
  have e: "ext ?h ?nf ?r h1 {take i (enc s) | i. i \<le> length s + 1}"
    by (rule ext_trans [OF e1 e2 le' sub])
  have fresh: "addr ?h ?r (enc s) = None \<longrightarrow> word_freq (h1 (last ?P)) = 0"
  proof
    assume n: "addr ?h ?r (enc s) = None"
    have "enc s \<notin> {[] @ map slot (take i s) | i. i \<le> length s}"
    proof
      assume "enc s \<in> {[] @ map slot (take i s) | i. i \<le> length s}"
      then obtain i where "i \<le> length s" "enc s = map slot (take i s)" by auto
      then have "length (enc s) \<le> length s" by simp
      then show False by (simp add: enc_def)
    qed
    with n e1 have "addr h' ?r (enc s) = None" by (simp add: ext_def)
    with new have "h1 T = Node (CHR ''$'')" by (simp add: enc_def)
    then show "word_freq (h1 (last ?P)) = 0" by (simp add: Node_def)
  qed
  from run g1 le' le1 lenQ pathsP e fresh show ?thesis
    by (intro exI [of _ h1] exI [of _ nf1] exI [of _ ?P]) simp
qed

lemma for_each_append:
  "for_each f (xs @ ys) s = (case for_each f xs s of Inl e \<Rightarrow> Inl e | Inr s' \<Rightarrow> for_each f ys s')"
  by (induction xs arbitrary: s) (auto split: sum.splits)

lemma nth_notin_take: "distinct P \<Longrightarrow> m < length P \<Longrightarrow> P ! m \<notin> set (take m P)"
  by (metis distinct_take id_take_nth_drop not_distinct_conv_prefix)

lemma nth_in_take: "i < m \<Longrightarrow> m \<le> length P \<Longrightarrow> P ! i \<in> set (take m P)"
  by (metis in_set_conv_nth length_take min.absorb2 nth_take)

lemma init_fold:
  assumes d: "distinct P"
  shows "m < length P \<Longrightarrow>
         (\<forall>i<m. fold (init_step P) [0..<m] h (P ! i) = init_node h P i) \<and>
         (\<forall>a. a \<notin> set (take m P) \<longrightarrow> fold (init_step P) [0..<m] h a = h a)"
proof (induction m)
  case 0
  show ?case by simp
next
  case (Suc m)
  let ?hm = "fold (init_step P) [0..<m] h"
  from Suc have IH1: "\<forall>i<m. ?hm (P ! i) = init_node h P i"
    and IH2: "\<forall>a. a \<notin> set (take m P) \<longrightarrow> ?hm a = h a" by simp_all
  have m: "m < length P" using Suc.prems by simp
  have nm: "P ! m \<notin> set (take m P)" by (rule nth_notin_take [OF d m])
  have "P \<noteq> []" using m by auto
  then have lastP: "last P = P ! (length P - 1)" by (simp add: last_conv_nth)
  have lm: "last P \<noteq> P ! m"
    using d m Suc.prems lastP by (simp add: nth_eq_iff_index_eq)
  have "last P \<notin> set (take (length P - 1) P)"
    using nth_notin_take [OF d, of "length P - 1"] lastP m by simp
  moreover have "set (take m P) \<subseteq> set (take (length P - 1) P)"
    using Suc.prems by (intro set_take_subset_set_take) simp
  ultimately have "last P \<notin> set (take m P)" by blast
  then have lw: "word_freq (?hm (last P)) = word_freq (h (last P))" using IH2 by simp
  have hm: "?hm (P ! m) = h (P ! m)" using IH2 nm by simp
  have step: "fold (init_step P) [0..<Suc m] h = init_step P m ?hm" by simp
  have new: "init_step P m ?hm = ?hm(P ! m := init_node h P m)"
    using hm lw lm by (auto simp: init_step_def init_node_def Let_def fun_eq_iff)
  show ?case
  proof (intro conjI allI impI)
    fix i assume "i < Suc m"
    then consider "i < m" | "i = m" by linarith
    then show "fold (init_step P) [0..<Suc m] h (P ! i) = init_node h P i"
    proof cases
      case 1
      then have "P ! i \<noteq> P ! m" using d m by (simp add: nth_eq_iff_index_eq)
      with 1 IH1 show ?thesis unfolding step new by simp
    next
      case 2 then show ?thesis unfolding step new by simp
    qed
  next
    fix a assume "a \<notin> set (take (Suc m) P)"
    then have "a \<notin> set (take m P)" "a \<noteq> P ! m" using m by (auto simp: take_Suc_conv_app_nth)
    with IH2 show "fold (init_step P) [0..<Suc m] h a = h a" unfolding step new by simp
  qed
qed

lemma cmp_for_each:
  assumes d: "distinct P"
    and bc: "\<forall>i<length P - 1. \<exists>b. best_child (h (P ! i)) = Some b \<and> b \<notin> set (take i P)"
  shows "m < length P \<Longrightarrow>
         \<exists>h2. for_each (cmp_step P f) [0..<m] h = Inr h2 \<and>
           (\<forall>i<m. h2 (P ! i) = cmp_node h P f i) \<and>
           (\<forall>a. a \<notin> set (take m P) \<longrightarrow> h2 a = h a) \<and>
           (\<forall>a. char (h2 a) = char (h a))"
proof (induction m)
  case 0
  show ?case by simp
next
  case (Suc m)
  then obtain hm where run: "for_each (cmp_step P f) [0..<m] h = Inr hm"
    and IH1: "\<forall>i<m. hm (P ! i) = cmp_node h P f i"
    and IH2: "\<forall>a. a \<notin> set (take m P) \<longrightarrow> hm a = h a"
    and IH3: "\<forall>a. char (hm a) = char (h a)" by auto
  have m: "m < length P" "m < length P - 1" using Suc.prems by simp_all
  have nm: "P ! m \<notin> set (take m P)" by (rule nth_notin_take [OF d m(1)])
  from bc m obtain b where b: "best_child (h (P ! m)) = Some b" "b \<notin> set (take m P)" by blast
  have hm: "hm (P ! m) = h (P ! m)" using IH2 nm by simp
  have hb: "hm b = h b" using IH2 b by simp
  have step: "cmp_step P f m hm = Inr (hm(P ! m := cmp_node h P f m))"
    using hm hb b IH3 by (auto simp: cmp_step_def cmp_node_def Let_def fun_eq_iff)
  let ?h2 = "hm(P ! m := cmp_node h P f m)"
  have run': "for_each (cmp_step P f) [0..<Suc m] h = Inr ?h2"
    using run step by (simp add: for_each_append)
  have 1: "\<forall>i<Suc m. ?h2 (P ! i) = cmp_node h P f i"
  proof (intro allI impI)
    fix i assume "i < Suc m"
    then consider "i < m" | "i = m" by linarith
    then show "?h2 (P ! i) = cmp_node h P f i"
    proof cases
      case 1
      then have "P ! i \<noteq> P ! m" using d m by (simp add: nth_eq_iff_index_eq)
      with 1 IH1 show ?thesis by simp
    next
      case 2 then show ?thesis by simp
    qed
  qed
  have 2: "\<forall>a. a \<notin> set (take (Suc m) P) \<longrightarrow> ?h2 a = h a"
    using IH2 m by (auto simp: take_Suc_conv_app_nth)
  have 3: "\<forall>a. char (?h2 a) = char (h a)"
    using IH3 by (auto simp: cmp_node_def split: option.splits)
  from run' 1 2 3 show ?case by blast
qed

lemma node_okI2:
  "j < 27 \<Longrightarrow> links n ! j = Some b \<Longrightarrow> best_child n = Some b \<Longrightarrow> word_freq n = w b
    \<Longrightarrow> 1 \<le> w b
    \<Longrightarrow> (\<And>i c. i < 27 \<Longrightarrow> links n ! i = Some c \<Longrightarrow> w c < w b \<or> (w c = w b \<and> j \<le> i))
    \<Longrightarrow> node_ok w n"
  unfolding node_ok_def by blast

lemma node_step:
  fixes w :: "nat \<Rightarrow> int"
  assumes ok: "node_ok w n0"
    and X: "jX < 27" "links n0 ! jX = Some X"
    and inj: "\<And>j j' c. j < 27 \<Longrightarrow> j' < 27 \<Longrightarrow> links n0 ! j = Some c
                \<Longrightarrow> links n0 ! j' = Some c \<Longrightarrow> j = j'"
    and f: "f = w T + 1" "0 \<le> w T"
    and Tc: "\<And>j. j < 27 \<Longrightarrow> links n0 ! j = Some T \<Longrightarrow> X = T"
    and xu1: "X \<noteq> T \<Longrightarrow> w X = 0 \<Longrightarrow> xu" and xu2: "X \<noteq> T \<Longrightarrow> 1 \<le> w X \<Longrightarrow> \<not> xu"
    and n1: "n1 = (if best_child n0 = None then n0\<lparr>best_child := Some X, word_freq := f\<rparr> else n0)"
    and bc: "best_child n1 = Some bc"
    and g: "g = (if bc = T then f else if bc = X \<and> xu then f else w bc)"
    and lt: "\<And>j. j < 27 \<Longrightarrow> links n0 ! j = Some bc \<Longrightarrow> (lt \<longleftrightarrow> jX < j)"
    and n2: "n2 = (if f > g then n1\<lparr>best_child := Some X, word_freq := f\<rparr>
                   else if f = g \<and> lt then n1\<lparr>best_child := Some X\<rparr> else n1)"
    and n3: "n3 = (if lastp \<and> f > word_freq n2 then n2\<lparr>word_freq := f\<rparr> else n2)"
    and lastp: "lastp \<longleftrightarrow> X = T"
  shows "node_ok (\<lambda>c. if c = X then max (w c) f else w c) n3 \<and> best_child n3 \<noteq> None
         \<and> word_freq n3 = max (word_freq n0) f"
proof -
  let ?w = "\<lambda>c. if c = X then max (w c) f else w c"
  have f1: "1 \<le> f" using f by simp
  from ok [unfolded node_ok_def] show ?thesis
  proof (elim disjE conjE exE)
    assume u: "best_child n0 = None" "word_freq n0 = 0"
      and z: "\<forall>i<27. \<forall>b. links n0 ! i = Some b \<longrightarrow> w b = 0"
    have wX: "w X = 0" using z X by blast
    have n1': "n1 = n0\<lparr>best_child := Some X, word_freq := f\<rparr>" using n1 u by simp
    then have bcX: "bc = X" using bc by simp
    have gf: "g = f" using g bcX xu1 wX by auto
    have "\<not> lt" using lt [of jX] X bcX by simp
    with gf have n2': "n2 = n1" using n2 by simp
    have n3': "n3 = n1" using n3 n2' n1' by simp
    have "node_ok ?w n3"
    proof (rule node_okI2 [of jX _ X])
      show "jX < 27" by fact
      show "links n3 ! jX = Some X" using X n3' n1' by simp
      show "best_child n3 = Some X" using n3' n1' by simp
      show "word_freq n3 = ?w X" using n3' n1' wX f1 by simp
      show "1 \<le> ?w X" using f1 by simp
    next
      fix i c assume ic: "i < 27" "links n3 ! i = Some c"
      then have l: "links n0 ! i = Some c" using n3' n1' by simp
      then have "w c = 0" using z ic by blast
      moreover have "c = X \<Longrightarrow> jX = i" using inj [OF X(1) ic(1) X(2)] l by simp
      ultimately show "?w c < ?w X \<or> (?w c = ?w X \<and> jX \<le> i)" using f1 wX by auto
    qed
    then show ?thesis using n3' n1' u f1 by simp
  next
    fix j b
    assume j: "j < 27" "links n0 ! j = Some b" and b: "best_child n0 = Some b"
      and m: "word_freq n0 = w b" "1 \<le> w b"
      and opt: "\<forall>i<27. \<forall>c. links n0 ! i = Some c \<longrightarrow> w c < w b \<or> (w c = w b \<and> j \<le> i)"
    have n1': "n1 = n0" using n1 b by simp
    then have bcb: "bc = b" using bc b by simp
    have ltj: "lt \<longleftrightarrow> jX < j" using lt [of j] j bcb by simp
    have optX: "w X < w b \<or> (w X = w b \<and> j \<le> jX)" using opt X by blast
    have sameX: "b = X \<longleftrightarrow> j = jX" using inj [OF j(1) X(1) j(2)] X j by auto
    have bT: "b = T \<Longrightarrow> X = T" using Tc [of j] j by simp
    have links3: "links n3 = links n0" using n3 n2 n1' by simp
    show ?thesis
    proof (cases "b = T")
      case True
      then have XT: "X = T" "b = X" using bT by simp_all
      have gf: "g = f" using g bcb True by simp
      have "\<not> lt" using ltj sameX XT by simp
      then have n2': "n2 = n0" using n2 gf n1' by simp
      have n3': "n3 = n0\<lparr>word_freq := f\<rparr>" using n3 n2' lastp XT m True f by simp
      have "node_ok ?w n3"
      proof (rule node_okI2 [of j _ b])
        show "j < 27" by fact
        show "links n3 ! j = Some b" using j n3' by simp
        show "best_child n3 = Some b" using n3' b by simp
        show "word_freq n3 = ?w b" using n3' XT True f by simp
        show "1 \<le> ?w b" using XT f1 by simp
      next
        fix i c assume ic: "i < 27" "links n3 ! i = Some c"
        then have l: "links n0 ! i = Some c" using n3' by simp
        with opt ic have "w c < w b \<or> (w c = w b \<and> j \<le> i)" by blast
        then show "?w c < ?w b \<or> (?w c = ?w b \<and> j \<le> i)" using XT True f by auto
      qed
      then show ?thesis using n3' m True f b by simp
    next
      case bT: False
      show ?thesis
      proof (cases "b = X")
        case True
        then have jj: "j = jX" using sameX by simp
        have "\<not> xu" using xu2 True bT m by simp
        then have gw: "g = w b" using g bcb bT by simp
        have nlt: "\<not> lt" using ltj jj by simp
        have np: "\<not> lastp" using lastp True bT by simp
        then have n3': "n3 = n2" using n3 by simp
        show ?thesis
        proof (cases "f > w b")
          case gt: True
          then have n2': "n2 = n0\<lparr>best_child := Some X, word_freq := f\<rparr>"
            using n2 gw n1' by simp
          have "node_ok ?w n3"
          proof (rule node_okI2 [of jX _ X])
            show "jX < 27" by fact
            show "links n3 ! jX = Some X" using X n3' n2' by simp
            show "best_child n3 = Some X" using n3' n2' by simp
            show "word_freq n3 = ?w X" using n3' n2' gt True by simp
            show "1 \<le> ?w X" using f1 by simp
          next
            fix i c assume ic: "i < 27" "links n3 ! i = Some c"
            then have l: "links n0 ! i = Some c" using n3' n2' by simp
            with opt ic have "w c < w b \<or> (w c = w b \<and> j \<le> i)" by blast
            then show "?w c < ?w X \<or> (?w c = ?w X \<and> jX \<le> i)" using gt True jj by auto
          qed
          then show ?thesis using n3' n2' m gt by simp
        next
          case le: False
          then have n2': "n2 = n0" using n2 gw n1' nlt by simp
          have "node_ok ?w n3"
          proof (rule node_okI2 [of j _ b])
            show "j < 27" by fact
            show "links n3 ! j = Some b" using j n3' n2' by simp
            show "best_child n3 = Some b" using n3' n2' b by simp
            show "word_freq n3 = ?w b" using n3' n2' m le True by simp
            show "1 \<le> ?w b" using m True by simp
          next
            fix i c assume ic: "i < 27" "links n3 ! i = Some c"
            then have l: "links n0 ! i = Some c" using n3' n2' by simp
            with opt ic have "w c < w b \<or> (w c = w b \<and> j \<le> i)" by blast
            then show "?w c < ?w b \<or> (?w c = ?w b \<and> j \<le> i)" using le True by auto
          qed
          then show ?thesis using n3' n2' m le b by simp
        qed
      next
        case bX: False
        then have jj: "j \<noteq> jX" using sameX by simp
        have gw: "g = w b" using g bcb bT bX by simp
        have XnT: "\<And>c i. i < 27 \<Longrightarrow> links n0 ! i = Some c \<Longrightarrow> c = X \<Longrightarrow> i = jX"
          using inj [OF _ X(1) _ X(2)] by simp
        show ?thesis
        proof (cases "f > w b")
          case gt: True
          then have n2': "n2 = n0\<lparr>best_child := Some X, word_freq := f\<rparr>"
            using n2 gw n1' by simp
          then have n3': "n3 = n2" using n3 by simp
          have "node_ok ?w n3"
          proof (rule node_okI2 [of jX _ X])
            show "jX < 27" by fact
            show "links n3 ! jX = Some X" using X n3' n2' by simp
            show "best_child n3 = Some X" using n3' n2' by simp
            show "word_freq n3 = ?w X" using n3' n2' gt optX by auto
            show "1 \<le> ?w X" using f1 by simp
          next
            fix i c assume ic: "i < 27" "links n3 ! i = Some c"
            then have l: "links n0 ! i = Some c" using n3' n2' by simp
            with opt ic have "w c < w b \<or> (w c = w b \<and> j \<le> i)" by blast
            then show "?w c < ?w X \<or> (?w c = ?w X \<and> jX \<le> i)"
              using gt optX XnT [OF ic(1) l] by auto
          qed
          then show ?thesis using n3' n2' m gt by simp
        next
          case le: False
          show ?thesis
          proof (cases "f = w b \<and> jX < j")
            case tie: True
            then have n2': "n2 = n0\<lparr>best_child := Some X\<rparr>"
              using n2 gw n1' ltj by simp
            then have n3': "n3 = n2" using n3 m tie by simp
            have "node_ok ?w n3"
            proof (rule node_okI2 [of jX _ X])
              show "jX < 27" by fact
              show "links n3 ! jX = Some X" using X n3' n2' by simp
              show "best_child n3 = Some X" using n3' n2' by simp
              show "word_freq n3 = ?w X" using n3' n2' tie m optX by auto
              show "1 \<le> ?w X" using f1 by simp
            next
              fix i c assume ic: "i < 27" "links n3 ! i = Some c"
              then have l: "links n0 ! i = Some c" using n3' n2' by simp
              with opt ic have "w c < w b \<or> (w c = w b \<and> j \<le> i)" by blast
              then show "?w c < ?w X \<or> (?w c = ?w X \<and> jX \<le> i)"
                using tie optX XnT [OF ic(1) l] by auto
            qed
            then show ?thesis using n3' n2' m tie by simp
          next
            case keep: False
            then have n2': "n2 = n0" using n2 gw n1' ltj le by auto
            then have n3': "n3 = n2" using n3 m le by simp
            have jlt: "f < w b \<or> (f = w b \<and> j < jX)" using keep jj le by auto
            have "node_ok ?w n3"
            proof (rule node_okI2 [of j _ b])
              show "j < 27" by fact
              show "links n3 ! j = Some b" using j n3' n2' by simp
              show "best_child n3 = Some b" using n3' n2' b by simp
              show "word_freq n3 = ?w b" using n3' n2' m bX by simp
              show "1 \<le> ?w b" using m bX by simp
            next
              fix i c assume ic: "i < 27" "links n3 ! i = Some c"
              then have l: "links n0 ! i = Some c" using n3' n2' by simp
              with opt ic have "w c < w b \<or> (w c = w b \<and> j \<le> i)" by blast
              then show "?w c < ?w b \<or> (?w c = ?w b \<and> j \<le> i)"
                using le jlt optX bX XnT [OF ic(1) l] by auto
            qed
            then show ?thesis using n3' n2' m le b by simp
          qed
        qed
      qed
    qed
  qed
qed

lemma length_enc [simp]: "length (enc s) = Suc (length s)"
  by (simp add: enc_def)

lemma op_good: "on_path h nf r s P \<Longrightarrow> good h nf r"
  by (simp add: on_path_def)

lemma op_addr: "on_path h nf r s P \<Longrightarrow> i \<le> length s + 1 \<Longrightarrow> addr h r (take i (enc s)) = Some (P ! i)"
  by (simp add: on_path_def)

lemma op_len: "on_path h nf r s P \<Longrightarrow> length P = length s + 2"
  by (simp add: on_path_def)

lemma op_distinct:
  assumes op: "on_path h nf r s P"
  shows "distinct P"
  unfolding distinct_conv_nth
proof (intro allI impI)
  fix i j assume ij: "i < length P" "j < length P" "i \<noteq> j"
  show "P ! i \<noteq> P ! j"
  proof
    assume eq: "P ! i = P ! j"
    from ij op_len [OF op] have i: "i \<le> length s + 1" and j: "j \<le> length s + 1" by simp_all
    from op_addr [OF op i] op_addr [OF op j] eq
    have "take i (enc s) = take j (enc s)"
      using shape_inj [OF good_shape [OF op_good [OF op]]] by metis
    then have "length (take i (enc s)) = length (take j (enc s))" by simp
    with i j ij(3) show False by simp
  qed
qed

lemma op_last: "on_path h nf r s P \<Longrightarrow> last P = P ! (length s + 1)"
  by (cases "P = []") (auto simp: on_path_def last_conv_nth)

lemma op_butlast: "on_path h nf r s P \<Longrightarrow> butlast P = take (length s + 1) P"
  by (simp add: on_path_def butlast_conv_take)

lemma op_child:
  assumes op: "on_path h nf r s P" and i: "i \<le> length s" and j: "j < 27"
    and l: "links (h (P ! i)) ! j = Some c"
  shows "addr h r (take i (enc s) @ [j]) = Some c"
  using op_addr [OF op, of i] i j l
  by (simp add: addr_snoc shape_len [OF good_shape [OF op_good [OF op]]])

lemma op_link:
  assumes op: "on_path h nf r s P" and i: "i \<le> length s"
  shows "enc s ! i < 27 \<and> links (h (P ! i)) ! (enc s ! i) = Some (P ! Suc i)"
proof -
  have t: "take (Suc i) (enc s) = take i (enc s) @ [enc s ! i]"
    using i by (simp add: take_Suc_conv_app_nth)
  from op_addr [OF op, of "Suc i"] op_addr [OF op, of i] i
  show ?thesis unfolding t
    by (simp add: addr_snoc shape_len [OF good_shape [OF op_good [OF op]]] split: if_splits)
qed

lemma op_child_in:
  assumes op: "on_path h nf r s P" and i: "i \<le> length s" and j: "j < 27"
    and l: "links (h (P ! i)) ! j = Some c" and c: "c \<in> set P"
  shows "c = P ! Suc i \<and> j = enc s ! i"
proof -
  from c obtain m where m: "m < length P" "c = P ! m" by (auto simp: in_set_conv_nth)
  then have m': "m \<le> length s + 1" using op_len [OF op] by simp
  from op_addr [OF op m'] op_child [OF op i j l] m(2)
  have eq: "take m (enc s) = take i (enc s) @ [j]"
    using shape_inj [OF good_shape [OF op_good [OF op]]] by metis
  then have "length (take m (enc s)) = length (take i (enc s) @ [j])" by simp
  with m' i have mi: "m = Suc i" by simp
  with eq i have "take i (enc s) @ [enc s ! i] = take i (enc s) @ [j]"
    by (simp add: take_Suc_conv_app_nth)
  with mi m show ?thesis by simp
qed

lemma op_child_inj:
  assumes op: "on_path h nf r s P" and i: "i \<le> length s" and j: "j < 27" "j' < 27"
    and l: "links (h (P ! i)) ! j = Some c" "links (h (P ! i)) ! j' = Some c"
  shows "j = j'"
proof -
  from op_child [OF op i j(1) l(1)] op_child [OF op i j(2) l(2)]
  have "take i (enc s) @ [j] = take i (enc s) @ [j']"
    using shape_inj [OF good_shape [OF op_good [OF op]]] by metis
  then show ?thesis by simp
qed

lemma op_zero_free:
  assumes op: "on_path h nf r s P" and i: "i \<le> length s"
  shows "0 \<notin> set (take i (enc s))"
proof -
  have "\<forall>c\<in>set s. lowercase c" using op by (simp add: on_path_def)
  then have "0 \<notin> set (map slot s)" by (rule slot_nonzero)
  then have "0 \<notin> set (map slot (take i s))" by (auto dest: in_set_takeD)
  with i show ?thesis by (simp add: take_enc)
qed

lemma op_ok:
  assumes op: "on_path h nf r s P" and i: "i \<le> length s"
  shows "node_ok (\<lambda>x. word_freq (h x)) (h (P ! i))"
  using good_internal [OF op_good [OF op] op_addr [OF op] op_zero_free [OF op i]] i by simp

lemma char_order:
  assumes g: "good h nf r" and c1: "addr h r (p @ [j1]) = Some c1"
    and c2: "addr h r (p @ [j2]) = Some c2"
  shows "char (h c1) < char (h c2) \<longleftrightarrow> j1 < j2"
proof (cases "j1 = 0")
  case True
  then have d: "char (h c1) = CHR ''$''" using good_terminal [OF g, of p c1] c1 by simp
  show ?thesis
  proof (cases "j2 = 0")
    case True
    then have "char (h c2) = CHR ''$''" using good_terminal [OF g, of p c2] c2 by simp
    with d True \<open>j1 = 0\<close> show ?thesis by simp
  next
    case False
    with good_letter [OF g c2] have "lowercase (char (h c2))" by simp
    with d dollar_less False \<open>j1 = 0\<close> show ?thesis by simp
  qed
next
  case False
  with good_letter [OF g c1] have l1: "lowercase (char (h c1))" "slot (char (h c1)) = j1" by simp_all
  show ?thesis
  proof (cases "j2 = 0")
    case True
    then have "char (h c2) = CHR ''$''" using good_terminal [OF g, of p c2] c2 by simp
    with dollar_less [OF l1(1)] True show ?thesis by auto
  next
    case False
    with good_letter [OF g c2] have "lowercase (char (h c2))" "slot (char (h c2)) = j2" by simp_all
    with l1 slot_less show ?thesis by simp
  qed
qed

lemma op_char:
  assumes op: "on_path h nf r s P" and i: "i \<le> length s" and j: "j < 27" "j' < 27"
    and l: "links (h (P ! i)) ! j = Some c" "links (h (P ! i)) ! j' = Some c'"
  shows "char (h c) < char (h c') \<longleftrightarrow> j < j'"
  by (rule char_order [OF op_good [OF op] op_child [OF op i j(1) l(1)] op_child [OF op i j(2) l(2)]])

lemma init_node_fields:
  "links (init_node h P i) = links (h (P ! i))"
  "char (init_node h P i) = char (h (P ! i))"
  "word (init_node h P i) = word (h (P ! i))"
  by (simp_all add: init_node_def)

lemma cmp_node_fields:
  "links (cmp_node h P f i) = links (h (P ! i))"
  "char (cmp_node h P f i) = char (h (P ! i))"
  "word (cmp_node h P f i) = word (h (P ! i))"
  by (simp_all add: cmp_node_def split: option.splits)

lemma node_ok_cases:
  assumes "node_ok w n"
  shows "word_freq n = 0 \<Longrightarrow> best_child n = None"
    and "1 \<le> word_freq n \<Longrightarrow> best_child n \<noteq> None"
    and "best_child n = Some b \<Longrightarrow> \<exists>j<27. links n ! j = Some b"
  using assms unfolding node_ok_def by auto

lemma update_nodes_ok:
  assumes op: "on_path hA nf r s P"
    and wT: "0 \<le> word_freq (hA (last P))"
    and hB: "heap tB = hA(last P := (hA (last P))\<lparr>word_freq := word_freq (hA (last P)) + 1,
                                                 word := wd\<rparr>)"
    and ntu: "nodes_to_update tB = Some P"
  shows "\<exists>h'. update_nodes tB = Inr (tB\<lparr>heap := h'\<rparr>) \<and>
           (\<forall>a. a \<notin> set (butlast P) \<longrightarrow> h' a = heap tB a) \<and>
           (\<forall>a. links (h' a) = links (hA a) \<and> char (h' a) = char (hA a)
                 \<and> word (h' a) = word (heap tB a)) \<and>
           (\<forall>i \<le> length s. node_ok (\<lambda>x. word_freq (h' x)) (h' (P ! i))
                 \<and> best_child (h' (P ! i)) \<noteq> None)"
proof -
  define k where "k = length s"
  define T where "T = last P"
  define hB where "hB = heap tB"
  define f where "f = word_freq (hA T) + 1"
  define w where "w = (\<lambda>x. word_freq (hA x))"
  note d = op_distinct [OF op]
  have lenP: "length P = k + 2" using op_len [OF op] by (simp add: k_def)
  have TP: "T = P ! (k + 1)" using op_last [OF op] by (simp add: T_def k_def)
  have bl: "butlast P = take (k + 1) P" using op_butlast [OF op] by (simp add: k_def)
  have fw: "f = w T + 1" "0 \<le> w T" using wT by (simp_all add: f_def w_def T_def)
  have hB': "hB = hA(T := (hA T)\<lparr>word_freq := f, word := wd\<rparr>)"
    using hB by (simp add: hB_def T_def f_def)
  have hB_other: "\<And>a. a \<noteq> T \<Longrightarrow> hB a = hA a" by (simp add: hB')
  have hB_T: "word_freq (hB T) = f" by (simp add: hB')
  have hB_fields: "\<And>a. links (hB a) = links (hA a) \<and> char (hB a) = char (hA a)
                      \<and> best_child (hB a) = best_child (hA a)"
    by (simp add: hB')
  have Pin: "\<And>i. i \<le> k \<Longrightarrow> P ! i \<in> set (take (k + 1) P)"
    using lenP by (intro nth_in_take) simp_all
  have Tnot: "T \<notin> set (take (k + 1) P)"
    using nth_notin_take [OF d, of "k + 1"] lenP TP by simp
  have PT: "\<And>i. i \<le> k \<Longrightarrow> P ! i \<noteq> T" using Pin Tnot by metis
  have Pset: "\<And>i. i \<le> k + 1 \<Longrightarrow> P ! i \<in> set P" using lenP by simp
  have notP: "\<And>a. a \<notin> set P \<Longrightarrow> a \<notin> set (take (k + 1) P)" by (meson in_set_takeD)
  have SucT: "\<And>i. i \<le> k \<Longrightarrow> (P ! Suc i = T) = (i = k)"
    using d lenP TP by (simp add: nth_eq_iff_index_eq)
  \<comment> \<open>the first loop\<close>
  define h1 where "h1 = fold (init_step P) [0..<k + 1] hB"
  have i1: "\<forall>i<k + 1. h1 (P ! i) = init_node hB P i"
    and i2: "\<forall>a. a \<notin> set (take (k + 1) P) \<longrightarrow> h1 a = hB a"
    using init_fold [OF d, of "k + 1" hB] lenP by (simp_all add: h1_def)
  have h1T: "h1 T = hB T" using i2 Tnot by simp
  have h1P: "\<And>i. i \<le> k \<Longrightarrow> h1 (P ! i) =
      (if best_child (hA (P ! i)) = None
       then (hA (P ! i))\<lparr>best_child := Some (P ! Suc i), word_freq := f\<rparr> else hA (P ! i))"
    using i1 PT hB_other hB_T by (simp add: init_node_def T_def [symmetric])
  have h1_char: "\<And>a. char (h1 a) = char (hA a)"
  proof -
    fix a show "char (h1 a) = char (hA a)"
    proof (cases "a \<in> set (take (k + 1) P)")
      case True
      then obtain i where "i < k + 1" "a = P ! i" using lenP by (auto simp: in_set_conv_nth)
      then show ?thesis using h1P [of i] by simp
    next
      case False then show ?thesis using i2 hB_fields by simp
    qed
  qed
  \<comment> \<open>the best child a node has when the second loop reaches it\<close>
  have bc_cases: "\<And>i b. i \<le> k \<Longrightarrow> best_child (h1 (P ! i)) = Some b \<Longrightarrow>
        b = P ! Suc i \<or> (b \<notin> set P \<and> (\<exists>j<27. links (hA (P ! i)) ! j = Some b))"
  proof -
    fix i b assume i: "i \<le> k" and b: "best_child (h1 (P ! i)) = Some b"
    show "b = P ! Suc i \<or> (b \<notin> set P \<and> (\<exists>j<27. links (hA (P ! i)) ! j = Some b))"
    proof (cases "best_child (hA (P ! i)) = None")
      case True with b h1P [OF i] show ?thesis by simp
    next
      case False
      with b h1P [OF i] have b': "best_child (hA (P ! i)) = Some b" by simp
      from node_ok_cases(3) [OF op_ok [OF op] b'] i
      obtain j where j: "j < 27" "links (hA (P ! i)) ! j = Some b" by (auto simp: k_def)
      show ?thesis
      proof (cases "b \<in> set P")
        case True
        from op_child_in [OF op _ j True] i show ?thesis by (simp add: k_def)
      next
        case False with j show ?thesis by blast
      qed
    qed
  qed
  have bc_ex: "\<And>i. i \<le> k \<Longrightarrow> \<exists>b. best_child (h1 (P ! i)) = Some b"
    using h1P by (auto split: if_splits)
  have pre: "\<forall>i<length P - 1. \<exists>b. best_child (h1 (P ! i)) = Some b \<and> b \<notin> set (take i P)"
  proof (intro allI impI)
    fix i assume "i < length P - 1"
    then have i: "i \<le> k" using lenP by simp
    from bc_ex [OF i] obtain b where b: "best_child (h1 (P ! i)) = Some b" by blast
    have "b \<notin> set (take i P)"
    proof (cases "b = P ! Suc i")
      case True
      have "P ! Suc i \<notin> set (take (Suc i) P)"
        using nth_notin_take [OF d, of "Suc i"] lenP i by simp
      moreover have "set (take i P) \<subseteq> set (take (Suc i) P)"
        by (intro set_take_subset_set_take) simp
      ultimately show ?thesis using True by blast
    next
      case False
      with bc_cases [OF i b] have "b \<notin> set P" by simp
      then show ?thesis by (meson in_set_takeD)
    qed
    with b show "\<exists>b. best_child (h1 (P ! i)) = Some b \<and> b \<notin> set (take i P)" by blast
  qed
  \<comment> \<open>the second loop\<close>
  from cmp_for_each [OF d pre, of "k + 1" f] lenP
  obtain h2 where run2: "for_each (cmp_step P f) [0..<k + 1] h1 = Inr h2"
    and c1: "\<forall>i<k + 1. h2 (P ! i) = cmp_node h1 P f i"
    and c2: "\<forall>a. a \<notin> set (take (k + 1) P) \<longrightarrow> h2 a = h1 a"
    by auto
  \<comment> \<open>the last statement\<close>
  define h' where "h' = (if f > word_freq (h2 (P ! k))
                         then h2(P ! k := (h2 (P ! k))\<lparr>word_freq := f\<rparr>) else h2)"
  have run: "update_nodes tB = Inr (tB\<lparr>heap := h'\<rparr>)"
  proof -
    have L: "length P - 1 = k + 1" using lenP by simp
    have e1: "fold (init_step P) [0..<length P - 1] (heap tB) = h1"
      unfolding L h1_def hB_def ..
    have e2: "for_each (cmp_step P f) [0..<length P - 1] h1 = Inr h2"
      unfolding L by (rule run2)
    have wl: "word_freq (h1 (last P)) = f" using h1T hB_T by (simp add: T_def)
    have np: "P \<noteq> []" "\<not> length P < 2" "length P - 2 = k" using lenP by auto
    show ?thesis
      by (simp only: update_nodes_def ntu option.case Let_def e1 wl e2 sum.case np if_False)
         (simp add: h'_def)
  qed
  have off: "\<forall>a. a \<notin> set (butlast P) \<longrightarrow> h' a = hB a"
  proof (intro allI impI)
    fix a assume a: "a \<notin> set (butlast P)"
    then have "a \<noteq> P ! k" using Pin [of k] bl by auto
    with a bl c2 i2 show "h' a = hB a" by (simp add: h'_def)
  qed
  have h'P: "\<And>i. i \<le> k \<Longrightarrow> h' (P ! i) =
       (if i = k \<and> f > word_freq (cmp_node h1 P f i)
        then (cmp_node h1 P f i)\<lparr>word_freq := f\<rparr> else cmp_node h1 P f i)"
  proof -
    fix i assume i: "i \<le> k"
    have "P ! i = P ! k \<longleftrightarrow> i = k" using d lenP i by (simp add: nth_eq_iff_index_eq)
    with i c1 show "h' (P ! i) =
       (if i = k \<and> f > word_freq (cmp_node h1 P f i)
        then (cmp_node h1 P f i)\<lparr>word_freq := f\<rparr> else cmp_node h1 P f i)"
      by (auto simp: h'_def)
  qed
  have fields: "\<forall>a. links (h' a) = links (hA a) \<and> char (h' a) = char (hA a)
                 \<and> word (h' a) = word (hB a)"
  proof
    fix a
    show "links (h' a) = links (hA a) \<and> char (h' a) = char (hA a) \<and> word (h' a) = word (hB a)"
    proof (cases "a \<in> set (butlast P)")
      case False
      with off hB_fields show ?thesis by simp
    next
      case True
      then have "\<exists>i<k + 1. a = P ! i"
        using bl lenP by (auto simp: in_set_conv_nth)
      then obtain i where "i < k + 1" "a = P ! i" by blast
      then have i: "i \<le> k" "a = P ! i" by simp_all
      have a1: "links (h1 (P ! i)) = links (hA (P ! i)) \<and> char (h1 (P ! i)) = char (hA (P ! i))
                \<and> word (h1 (P ! i)) = word (hA (P ! i))"
        using h1P [OF i(1)] by simp
      have a2: "links (h' (P ! i)) = links (h1 (P ! i)) \<and> char (h' (P ! i)) = char (h1 (P ! i))
                \<and> word (h' (P ! i)) = word (h1 (P ! i))"
        unfolding h'P [OF i(1)] by (simp add: cmp_node_fields)
      have "hB (P ! i) = hA (P ! i)" using PT [OF i(1)] hB_other by simp
      with a1 a2 i(2) show ?thesis by simp
    qed
  qed
  \<comment> \<open>every node of the path after the update\<close>
  have step: "\<And>i. i \<le> k \<Longrightarrow>
      node_ok (\<lambda>c. if c = P ! Suc i then max (w c) f else w c) (h' (P ! i))
      \<and> best_child (h' (P ! i)) \<noteq> None \<and> word_freq (h' (P ! i)) = max (w (P ! i)) f"
  proof -
    fix i assume i: "i \<le> k"
    then have il: "i \<le> length s" by (simp add: k_def)
    let ?n0 = "hA (P ! i)" and ?X = "P ! Suc i" and ?jX = "enc s ! i"
    from bc_ex [OF i] obtain bc where bc: "best_child (h1 (P ! i)) = Some bc" by blast
    note lk = op_link [OF op il]
    have ok: "node_ok w ?n0" using op_ok [OF op il] by (simp add: w_def)
    have inj: "\<And>j j' c. j < 27 \<Longrightarrow> j' < 27 \<Longrightarrow> links ?n0 ! j = Some c
                \<Longrightarrow> links ?n0 ! j' = Some c \<Longrightarrow> j = j'"
      by (rule op_child_inj [OF op il])
    have Tc: "\<And>j. j < 27 \<Longrightarrow> links ?n0 ! j = Some T \<Longrightarrow> ?X = T"
    proof -
      fix j assume "j < 27" "links ?n0 ! j = Some T"
      from op_child_in [OF op il this] Pset [of "k + 1"] TP show "?X = T" by simp
    qed
    have okX: "?X \<noteq> T \<Longrightarrow> node_ok w (hA ?X)"
    proof -
      assume "?X \<noteq> T"
      with SucT [OF i] i have "Suc i \<le> length s" by (simp add: k_def)
      from op_ok [OF op this] show ?thesis by (simp add: w_def)
    qed
    have xu1: "?X \<noteq> T \<Longrightarrow> w ?X = 0 \<Longrightarrow> best_child (hA ?X) = None"
      using node_ok_cases(1) [OF okX] by (simp add: w_def)
    have xu2: "?X \<noteq> T \<Longrightarrow> 1 \<le> w ?X \<Longrightarrow> \<not> best_child (hA ?X) = None"
      using node_ok_cases(2) [OF okX] by (simp add: w_def)
    have n1: "h1 (P ! i) = (if best_child ?n0 = None
                then ?n0\<lparr>best_child := Some ?X, word_freq := f\<rparr> else ?n0)"
      by (rule h1P [OF i])
    have g: "word_freq (h1 bc) =
               (if bc = T then f else if bc = ?X \<and> best_child (hA ?X) = None then f else w bc)"
    proof (cases "bc = T")
      case True then show ?thesis using h1T hB_T by simp
    next
      case nT: False
      show ?thesis
      proof (cases "bc = ?X")
        case True
        with nT SucT [OF i] i have "Suc i \<le> k" by simp
        from h1P [OF this] True nT show ?thesis by (simp add: w_def)
      next
        case False
        with bc_cases [OF i bc] have "bc \<notin> set P" by simp
        then have "h1 bc = hB bc" using i2 notP by simp
        with nT False hB_other show ?thesis by (simp add: w_def)
      qed
    qed
    have lt: "\<And>j. j < 27 \<Longrightarrow> links ?n0 ! j = Some bc \<Longrightarrow>
               (char (h1 ?X) < char (h1 bc) \<longleftrightarrow> ?jX < j)"
    proof -
      fix j assume j: "j < 27" "links ?n0 ! j = Some bc"
      from op_char [OF op il _ j(1) _ j(2), of ?jX ?X] lk
      show "char (h1 ?X) < char (h1 bc) \<longleftrightarrow> ?jX < j" by (simp add: h1_char)
    qed
    have n2: "cmp_node h1 P f i =
         (if f > word_freq (h1 bc) then (h1 (P ! i))\<lparr>best_child := Some ?X, word_freq := f\<rparr>
          else if f = word_freq (h1 bc) \<and> char (h1 ?X) < char (h1 bc)
          then (h1 (P ! i))\<lparr>best_child := Some ?X\<rparr> else h1 (P ! i))"
      using bc by (simp add: cmp_node_def)
    have lastp: "(i = k) \<longleftrightarrow> ?X = T" using SucT [OF i] by simp
    from node_step [of w ?n0 ?jX ?X f T "best_child (hA ?X) = None" "h1 (P ! i)" bc
          "word_freq (h1 bc)" "char (h1 ?X) < char (h1 bc)" "cmp_node h1 P f i"
          "h' (P ! i)" "i = k",
          OF ok conjunct1 [OF lk] conjunct2 [OF lk] inj fw Tc xu1 xu2 n1 bc g lt n2 h'P [OF i] lastp]
    show "node_ok (\<lambda>c. if c = P ! Suc i then max (w c) f else w c) (h' (P ! i))
      \<and> best_child (h' (P ! i)) \<noteq> None \<and> word_freq (h' (P ! i)) = max (w (P ! i)) f"
      unfolding w_def .
  qed
  have h'T: "word_freq (h' T) = f"
    using off Tnot bl hB_T by simp
  have final: "\<forall>i \<le> length s. node_ok (\<lambda>x. word_freq (h' x)) (h' (P ! i))
                 \<and> best_child (h' (P ! i)) \<noteq> None"
  proof (intro allI impI)
    fix i assume il: "i \<le> length s"
    then have i: "i \<le> k" by (simp add: k_def)
    have "node_ok (\<lambda>x. word_freq (h' x)) (h' (P ! i))"
    proof (rule node_ok_weights [OF conjunct1 [OF step [OF i]]], intro allI impI)
      fix j b assume j: "j < 27" and b: "links (h' (P ! i)) ! j = Some b"
      then have l: "links (hA (P ! i)) ! j = Some b" using fields by simp
      show "word_freq (h' b) = (if b = P ! Suc i then max (w b) f else w b)"
      proof (cases "b = P ! Suc i")
        case True
        show ?thesis
        proof (cases "i = k")
          case True
          with \<open>b = P ! Suc i\<close> TP have "b = T" by simp
          with h'T fw True \<open>b = P ! Suc i\<close> show ?thesis by simp
        next
          case False
          with i have "Suc i \<le> k" by simp
          from step [OF this] True show ?thesis by simp
        qed
      next
        case False
        have "b \<notin> set P"
        proof
          assume "b \<in> set P"
          from op_child_in [OF op il j l this] False show False by simp
        qed
        then have "b \<notin> set (butlast P)" by (meson in_set_butlastD)
        moreover have "b \<noteq> T" using \<open>b \<notin> set P\<close> Pset [of "k + 1"] TP by auto
        ultimately show ?thesis using off hB_other False by (simp add: w_def)
      qed
    qed
    with step [OF i] show "node_ok (\<lambda>x. word_freq (h' x)) (h' (P ! i))
                 \<and> best_child (h' (P ! i)) \<noteq> None" by simp
  qed
  from run off fields final show ?thesis unfolding hB_def by blast
qed

lemma addr_links_cong:
  "(\<forall>a. links (h' a) = links (h a)) \<Longrightarrow> addr h' a p = addr h a p"
  by (induction p arbitrary: a) (auto split: option.splits)

lemma snoc_zero_eq:
  "xs @ [a] = ys @ a # zs \<Longrightarrow> a \<notin> set xs \<Longrightarrow> a \<notin> set ys \<Longrightarrow> xs = ys \<and> zs = []"
proof (induction xs arbitrary: ys)
  case Nil
  then show ?case by (cases ys) auto
next
  case (Cons x xs)
  then show ?case by (cases ys) auto
qed

lemma map_slot_inj:
  "map slot s = map slot u \<Longrightarrow> \<forall>c\<in>set s. lowercase c \<Longrightarrow> \<forall>c\<in>set u. lowercase c \<Longrightarrow> s = u"
proof (induction s arbitrary: u)
  case Nil
  then show ?case by simp
next
  case (Cons c s)
  then show ?case by (cases u) (auto dest: slot_inj)
qed

lemma enc_prefix_eq:
  assumes "prefix (enc s) (enc u)" and s: "\<forall>c\<in>set s. lowercase c" and u: "\<forall>c\<in>set u. lowercase c"
  shows "s = u"
proof -
  from assms(1) obtain z where "enc u = enc s @ z" by (auto simp: prefix_def)
  then have "map slot u @ [0] = map slot s @ 0 # z" by (simp add: enc_def)
  from snoc_zero_eq [OF this slot_nonzero [OF u] slot_nonzero [OF s]]
  have "map slot u = map slot s" by simp
  then show ?thesis using map_slot_inj s u by metis
qed

lemma prefix_take_iff: "prefix p xs \<longleftrightarrow> (\<exists>i\<le>length xs. p = take i xs)"
proof
  assume "prefix p xs"
  then obtain z where "xs = p @ z" by (auto simp: prefix_def)
  then have "length p \<le> length xs \<and> p = take (length p) xs" by simp
  then show "\<exists>i\<le>length xs. p = take i xs" by blast
next
  assume "\<exists>i\<le>length xs. p = take i xs"
  then show "prefix p xs" by (auto simp: take_is_prefix)
qed

lemma op_on:
  assumes op: "on_path h nf r s P" and a: "addr h r p = Some a"
  shows "a \<in> set P \<longleftrightarrow> prefix p (enc s)"
proof
  assume "a \<in> set P"
  then obtain m where m: "m < length P" "a = P ! m" by (auto simp: in_set_conv_nth)
  then have m': "m \<le> length s + 1" using op_len [OF op] by simp
  from op_addr [OF op m'] a m(2) have "p = take m (enc s)"
    using shape_inj [OF good_shape [OF op_good [OF op]]] by metis
  then show "prefix p (enc s)" by (simp add: take_is_prefix)
next
  assume "prefix p (enc s)"
  then obtain i where i: "i \<le> length (enc s)" "p = take i (enc s)"
    by (auto simp: prefix_take_iff)
  then have "addr h r p = Some (P ! i)" using op_addr [OF op, of i] by simp
  with a have "a = P ! i" by simp
  then show "a \<in> set P" using i op_len [OF op] by simp
qed

lemma op_on_butlast:
  assumes op: "on_path h nf r s P" and a: "addr h r p = Some a"
  shows "a \<in> set (butlast P) \<longleftrightarrow> prefix p (enc s) \<and> 0 \<notin> set p"
proof
  assume "a \<in> set (butlast P)"
  then have "a \<in> set (take (length s + 1) P)" using op_butlast [OF op] by simp
  then obtain i where i: "i < length s + 1" "a = P ! i"
    using op_len [OF op] by (auto simp: in_set_conv_nth)
  then have i': "i \<le> length s" by simp
  from op_addr [OF op, of i] a i have "p = take i (enc s)"
    using shape_inj [OF good_shape [OF op_good [OF op]]] by (metis le_add1 le_trans i' trans_le_add1)
  then show "prefix p (enc s) \<and> 0 \<notin> set p"
    using op_zero_free [OF op i'] by (simp add: take_is_prefix)
next
  assume p: "prefix p (enc s) \<and> 0 \<notin> set p"
  then obtain i where i: "i \<le> length (enc s)" "p = take i (enc s)"
    by (auto simp: prefix_take_iff)
  have "i \<noteq> Suc (length s)"
  proof
    assume "i = Suc (length s)"
    with i have "p = enc s" by simp
    with p show False by (simp add: enc_def)
  qed
  with i have i': "i < length s + 1" by simp
  then have "addr h r p = Some (P ! i)" using op_addr [OF op, of i] i by simp
  with a have "a = P ! i" by simp
  then show "a \<in> set (butlast P)"
    using i' op_butlast [OF op] op_len [OF op] by (simp add: nth_in_take)
qed

text \<open>The store after \<open>update_nodes\<close> is consistent again.\<close>

lemma good_after_update:
  assumes op: "on_path hA nf r s P"
    and off: "\<forall>a. a \<notin> set (butlast P) \<longrightarrow> h' a = hB a"
    and hB: "\<forall>a. a \<noteq> last P \<longrightarrow> hB a = hA a"
    and hBT: "best_child (hB (last P)) = best_child (hA (last P))"
    and fields: "\<forall>a. links (h' a) = links (hA a) \<and> char (h' a) = char (hA a)"
    and final: "\<forall>i \<le> length s. node_ok (\<lambda>x. word_freq (h' x)) (h' (P ! i))"
  shows "good h' nf r"
proof -
  note g = op_good [OF op]
  have A: "\<And>a p. addr h' a p = addr hA a p"
    using fields by (intro addr_links_cong) simp
  have sh: "shape h' nf r"
    using good_shape [OF g] fields unfolding shape_def A by simp
  have lastP: "last P \<in> set P" using op_len [OF op] by (intro last_in_set) auto
  have unch: "\<And>a. a \<notin> set P \<Longrightarrow> h' a = hA a"
  proof -
    fix a assume a: "a \<notin> set P"
    then have "a \<notin> set (butlast P)" by (meson in_set_butlastD)
    moreover have "a \<noteq> last P" using a lastP by auto
    ultimately show "h' a = hA a" using off hB by simp
  qed
  have internal: "\<forall>p a. addr h' r p = Some a \<longrightarrow> 0 \<notin> set p \<longrightarrow>
        node_ok (\<lambda>x. word_freq (h' x)) (h' a) \<and> char (h' a) \<noteq> CHR ''$''"
  proof (intro allI impI)
    fix p a assume pa: "addr h' r p = Some a" and p0: "0 \<notin> set p"
    then have pa': "addr hA r p = Some a" by (simp add: A)
    from good_internal [OF g pa' p0]
    have ok: "node_ok (\<lambda>x. word_freq (hA x)) (hA a)" and ch: "char (hA a) \<noteq> CHR ''$''"
      by simp_all
    have "node_ok (\<lambda>x. word_freq (h' x)) (h' a)"
    proof (cases "a \<in> set (butlast P)")
      case True
      then have "a \<in> set (take (length s + 1) P)" using op_butlast [OF op] by simp
      then obtain i where "i < length s + 1" "a = P ! i"
        using op_len [OF op] by (auto simp: in_set_conv_nth)
      then show ?thesis using final by simp
    next
      case False
      then have np: "\<not> prefix p (enc s)" using op_on_butlast [OF op pa'] p0 by simp
      then have "a \<notin> set P" using op_on [OF op pa'] by simp
      then have ha: "h' a = hA a" by (rule unch)
      have "node_ok (\<lambda>x. word_freq (h' x)) (hA a)"
      proof (rule node_ok_weights [OF ok], intro allI impI)
        fix j b assume j: "j < 27" and b: "links (hA a) ! j = Some b"
        then have pb: "addr hA r (p @ [j]) = Some b"
          using pa' by (simp add: addr_snoc shape_len [OF good_shape [OF g]])
        have "\<not> prefix (p @ [j]) (enc s)" using np by (meson append_prefixD)
        then have "b \<notin> set P" using op_on [OF op pb] by simp
        then show "word_freq (h' b) = word_freq (hA b)" by (simp add: unch)
      qed
      with ha show ?thesis by simp
    qed
    with ch fields show "node_ok (\<lambda>x. word_freq (h' x)) (h' a) \<and> char (h' a) \<noteq> CHR ''$''"
      by simp
  qed
  have terminal: "\<forall>p a. addr h' r (p @ [0]) = Some a \<longrightarrow>
        char (h' a) = CHR ''$'' \<and> best_child (h' a) = None \<and> (\<forall>i<27. links (h' a) ! i = None)"
  proof (intro allI impI)
    fix p a assume "addr h' r (p @ [0]) = Some a"
    then have pa: "addr hA r (p @ [0]) = Some a" by (simp add: A)
    have "a \<notin> set (butlast P)" using op_on_butlast [OF op pa] by simp
    then have "h' a = hB a" using off by simp
    moreover have "best_child (hB a) = best_child (hA a)" using hB hBT by (cases "a = last P") auto
    ultimately have "best_child (h' a) = best_child (hA a)" by simp
    with good_terminal [OF g pa] fields
    show "char (h' a) = CHR ''$'' \<and> best_child (h' a) = None \<and> (\<forall>i<27. links (h' a) ! i = None)"
      by simp
  qed
  have letter: "\<forall>p i a. addr h' r (p @ [i]) = Some a \<longrightarrow> i \<noteq> 0 \<longrightarrow>
        lowercase (char (h' a)) \<and> slot (char (h' a)) = i"
    using good_letter [OF g] fields by (simp add: A)
  from sh internal terminal letter show ?thesis unfolding good_def by blast
qed

lemma inv_good: "inv ss tr \<Longrightarrow> good (heap tr) (next_free tr) (root tr)"
  by (simp add: inv_def)

lemma inv_paths:
  "inv ss tr \<Longrightarrow> addr (heap tr) (root tr) p \<noteq> None \<longleftrightarrow> p = [] \<or> (\<exists>s\<in>set ss. prefix p (enc s))"
  unfolding inv_def by blast

lemma inv_terminal:
  "inv ss tr \<Longrightarrow> s \<in> set ss \<Longrightarrow> addr (heap tr) (root tr) (enc s) = Some a \<Longrightarrow>
     word (heap tr a) = Some s \<and> word_freq (heap tr a) = int (count_list ss s)"
  unfolding inv_def by blast

lemma inv_best:
  "inv ss tr \<Longrightarrow> addr (heap tr) (root tr) p = Some a \<Longrightarrow> 0 \<notin> set p \<Longrightarrow> p \<noteq> [] \<or> ss \<noteq> [] \<Longrightarrow>
     best_child (heap tr a) \<noteq> None"
  unfolding inv_def by blast

lemma enc_not_Nil [simp]: "enc s \<noteq> []"
  by (simp add: enc_def)

lemma inv_present:
  assumes i: "inv ss tr" and la: "lower_all ss" and ls: "\<forall>c\<in>set s. lowercase c"
  shows "addr (heap tr) (root tr) (enc s) \<noteq> None \<longleftrightarrow> s \<in> set ss"
proof
  assume "addr (heap tr) (root tr) (enc s) \<noteq> None"
  with inv_paths [OF i, of "enc s"] obtain u where u: "u \<in> set ss" "prefix (enc s) (enc u)"
    by auto
  with la have "\<forall>c\<in>set u. lowercase c" by (simp add: lower_all_def)
  from enc_prefix_eq [OF u(2) ls this] u show "s \<in> set ss" by simp
next
  assume "s \<in> set ss"
  then show "addr (heap tr) (root tr) (enc s) \<noteq> None"
    using inv_paths [OF i, of "enc s"] by auto
qed

lemma insert_iterative_inv:
  assumes i: "inv ss tr" and la: "lower_all ss" and ls: "\<forall>c\<in>set s. lowercase c"
  shows "\<exists>tr' P. insert_iterative tr s = Inr tr' \<and> inv (ss @ [s]) tr' \<and> root tr' = root tr
           \<and> nodes_to_update tr' = Some P
           \<and> on_path (heap tr') (next_free tr') (root tr) s P"
proof -
  let ?h = "heap tr" and ?nf = "next_free tr" and ?r = "root tr"
  note g = inv_good [OF i]
  from insert_walk_good [OF g ls]
  obtain hA nfA P where W:
    "insert_walk tr s =
       Inr (tr\<lparr>heap := hA(last P := (hA (last P))\<lparr>word_freq := word_freq (hA (last P)) + 1,
                                                  word := Some s\<rparr>),
               next_free := nfA, nodes_to_update := Some P\<rparr>)
     \<and> good hA nfA ?r \<and> ?nf \<le> nfA \<and> length P = length s + 2
     \<and> (\<forall>i \<le> length s + 1. addr hA ?r (take i (enc s)) = Some (P ! i))
     \<and> ext ?h ?nf ?r hA {take i (enc s) | i. i \<le> length s + 1}
     \<and> (addr ?h ?r (enc s) = None \<longrightarrow> word_freq (hA (last P)) = 0)"
    by (elim exE)
  then have
    walk: "insert_walk tr s =
       Inr (tr\<lparr>heap := hA(last P := (hA (last P))\<lparr>word_freq := word_freq (hA (last P)) + 1,
                                                  word := Some s\<rparr>),
               next_free := nfA, nodes_to_update := Some P\<rparr>)"
    and gA: "good hA nfA ?r" and le: "?nf \<le> nfA" and lenP: "length P = length s + 2"
    and paths: "\<forall>i \<le> length s + 1. addr hA ?r (take i (enc s)) = Some (P ! i)"
    and e: "ext ?h ?nf ?r hA {take i (enc s) | i. i \<le> length s + 1}"
    and fresh: "addr ?h ?r (enc s) = None \<longrightarrow> word_freq (hA (last P)) = 0"
    by blast+
  let ?T = "last P"
  let ?hB = "hA(?T := (hA ?T)\<lparr>word_freq := word_freq (hA ?T) + 1, word := Some s\<rparr>)"
  let ?tB = "tr\<lparr>heap := ?hB, next_free := nfA, nodes_to_update := Some P\<rparr>"
  have op: "on_path hA nfA ?r s P" using gA ls lenP paths by (simp add: on_path_def)
  have S: "{take i (enc s) | i. i \<le> length s + 1} = {p. prefix p (enc s)}"
    by (auto simp: prefix_take_iff)
  have E1: "\<And>q a. addr ?h ?r q = Some a \<Longrightarrow> addr hA ?r q = Some a"
    using e by (simp add: ext_def)
  have E2: "\<And>q. addr ?h ?r q = None \<Longrightarrow> \<not> prefix q (enc s) \<Longrightarrow> addr hA ?r q = None"
    using e unfolding ext_def S by simp
  have E3: "\<And>a. a < ?nf \<Longrightarrow> word_freq (hA a) = word_freq (?h a) \<and> char (hA a) = char (?h a)
          \<and> word (hA a) = word (?h a) \<and> best_child (hA a) = best_child (?h a)"
    using e by (simp add: ext_def)
  have old_lt: "\<And>q a. addr ?h ?r q = Some a \<Longrightarrow> a < ?nf"
    by (rule shape_lt [OF good_shape [OF g]])
  have TP: "?T = P ! (length s + 1)" by (rule op_last [OF op])
  have aT: "addr hA ?r (enc s) = Some ?T"
    using op_addr [OF op, of "length s + 1"] TP by (simp add: take_enc_all)
  \<comment> \<open>the terminal node before the increment\<close>
  have cntT: "word_freq (hA ?T) = int (count_list ss s)"
  proof (cases "s \<in> set ss")
    case True
    with inv_present [OF i la ls] obtain a where a: "addr ?h ?r (enc s) = Some a" by auto
    from E1 [OF a] aT have "a = ?T" by simp
    with inv_terminal [OF i True a] E3 [OF old_lt [OF a]] show ?thesis by simp
  next
    case False
    with inv_present [OF i la ls] have "addr ?h ?r (enc s) = None" by simp
    with fresh False show ?thesis by simp
  qed
  then have wT: "0 \<le> word_freq (hA ?T)" by simp
  have hB: "heap ?tB = ?hB" and ntu: "nodes_to_update ?tB = Some P" by simp_all
  from update_nodes_ok [OF op wT hB ntu]
  obtain h' where run: "update_nodes ?tB = Inr (?tB\<lparr>heap := h'\<rparr>)"
    and off: "\<forall>a. a \<notin> set (butlast P) \<longrightarrow> h' a = ?hB a"
    and fields: "\<forall>a. links (h' a) = links (hA a) \<and> char (h' a) = char (hA a)
                 \<and> word (h' a) = word (?hB a)"
    and final: "\<forall>i \<le> length s. node_ok (\<lambda>x. word_freq (h' x)) (h' (P ! i))
                 \<and> best_child (h' (P ! i)) \<noteq> None"
    by auto
  let ?tr' = "?tB\<lparr>heap := h'\<rparr>"
  have ins: "insert_iterative tr s = Inr ?tr'"
    using walk run by (simp add: insert_iterative_def)
  have A: "\<And>a p. addr h' a p = addr hA a p"
    using fields by (intro addr_links_cong) simp
  have g': "good h' nfA ?r"
    by (rule good_after_update [OF op off]) (use fields final in auto)
  have op': "on_path h' nfA ?r s P"
    using g' ls lenP paths by (simp add: on_path_def A)
  have Tnb: "?T \<notin> set (butlast P)"
    using op_on_butlast [OF op aT] by (simp add: enc_def)
  have h'T: "h' ?T = ?hB ?T" using off Tnb by simp
  have unch: "\<And>a. a \<notin> set P \<Longrightarrow> h' a = hA a"
  proof -
    fix a assume a: "a \<notin> set P"
    then have "a \<notin> set (butlast P)" by (meson in_set_butlastD)
    moreover have "a \<noteq> ?T" using a op_on [OF op aT] by auto
    ultimately show "h' a = hA a" using off by simp
  qed
  \<comment> \<open>the four parts of the invariant\<close>
  have I2: "\<forall>p. addr h' ?r p \<noteq> None \<longleftrightarrow> p = [] \<or> (\<exists>u\<in>set (ss @ [s]). prefix p (enc u))"
  proof
    fix p
    show "addr h' ?r p \<noteq> None \<longleftrightarrow> p = [] \<or> (\<exists>u\<in>set (ss @ [s]). prefix p (enc u))"
    proof
      assume n: "addr h' ?r p \<noteq> None"
      show "p = [] \<or> (\<exists>u\<in>set (ss @ [s]). prefix p (enc u))"
      proof (cases "prefix p (enc s)")
        case True then show ?thesis by auto
      next
        case False
        have "addr ?h ?r p \<noteq> None"
        proof
          assume "addr ?h ?r p = None"
          from E2 [OF this False] n show False by (simp add: A)
        qed
        with inv_paths [OF i, of p] show ?thesis by auto
      qed
    next
      assume "p = [] \<or> (\<exists>u\<in>set (ss @ [s]). prefix p (enc u))"
      then consider "p = []" | "prefix p (enc s)" | u where "u \<in> set ss" "prefix p (enc u)"
        by auto
      then show "addr h' ?r p \<noteq> None"
      proof cases
        case 1 then show ?thesis by simp
      next
        case 2
        then obtain j where "j \<le> length (enc s)" "p = take j (enc s)"
          by (auto simp: prefix_take_iff)
        then show ?thesis using op_addr [OF op, of j] by (simp add: A)
      next
        case 3
        with inv_paths [OF i, of p] obtain a where "addr ?h ?r p = Some a" by auto
        from E1 [OF this] show ?thesis by (simp add: A)
      qed
    qed
  qed
  have I3: "\<forall>u\<in>set (ss @ [s]). \<forall>a. addr h' ?r (enc u) = Some a \<longrightarrow>
        word (h' a) = Some u \<and> word_freq (h' a) = int (count_list (ss @ [s]) u)"
  proof (intro ballI allI impI)
    fix u a assume u: "u \<in> set (ss @ [s])" and a: "addr h' ?r (enc u) = Some a"
    show "word (h' a) = Some u \<and> word_freq (h' a) = int (count_list (ss @ [s]) u)"
    proof (cases "u = s")
      case True
      with a aT have "a = ?T" by (simp add: A)
      with h'T cntT True show ?thesis by simp
    next
      case False
      with u have uss: "u \<in> set ss" by simp
      with la have lu: "\<forall>c\<in>set u. lowercase c" by (simp add: lower_all_def)
      from inv_present [OF i la lu] uss obtain a0 where a0: "addr ?h ?r (enc u) = Some a0"
        by auto
      from E1 [OF a0] a have aa: "a0 = a" by (simp add: A)
      have "\<not> prefix (enc u) (enc s)" using enc_prefix_eq [OF _ lu ls] False by auto
      then have "a \<notin> set P" using op_on [OF op E1 [OF a0]] aa by simp
      then have "h' a = hA a" by (rule unch)
      with inv_terminal [OF i uss a0] E3 [OF old_lt [OF a0]] aa False show ?thesis by simp
    qed
  qed
  have I4: "\<forall>p a. addr h' ?r p = Some a \<longrightarrow> 0 \<notin> set p \<longrightarrow> (p \<noteq> [] \<or> ss @ [s] \<noteq> []) \<longrightarrow>
        best_child (h' a) \<noteq> None"
  proof (intro allI impI)
    fix p a assume pa: "addr h' ?r p = Some a" and p0: "0 \<notin> set p"
    then have pa': "addr hA ?r p = Some a" by (simp add: A)
    show "best_child (h' a) \<noteq> None"
    proof (cases "a \<in> set (butlast P)")
      case True
      then have "a \<in> set (take (length s + 1) P)" using op_butlast [OF op] by simp
      then obtain j where "j < length s + 1" "a = P ! j"
        using lenP by (auto simp: in_set_conv_nth)
      then show ?thesis using final by simp
    next
      case False
      then have np: "\<not> prefix p (enc s)" using op_on_butlast [OF op pa'] p0 by simp
      then have "a \<notin> set P" using op_on [OF op pa'] by simp
      then have ha: "h' a = hA a" by (rule unch)
      have "addr ?h ?r p \<noteq> None"
      proof
        assume "addr ?h ?r p = None"
        from E2 [OF this np] pa' show False by simp
      qed
      then obtain a0 where a0: "addr ?h ?r p = Some a0" by auto
      with E1 [OF a0] pa' have aa: "a0 = a" by simp
      from np have "p \<noteq> []" by auto
      with inv_best [OF i a0 p0] have "best_child (?h a0) \<noteq> None" by simp
      with E3 [OF old_lt [OF a0]] aa ha show ?thesis by simp
    qed
  qed
  have "inv (ss @ [s]) ?tr'"
    unfolding inv_def using g' I2 I3 I4 by simp
  with ins op' show ?thesis by (intro exI [of _ ?tr'] exI [of _ P]) simp
qed

lemma Node_fields [simp]:
  "links (Node c) = replicate 27 None" "char (Node c) = c" "word (Node c) = None"
  "word_freq (Node c) = 0" "best_child (Node c) = None"
  by (simp_all add: Node_def)

lemma inv_empty: "inv [] empty_trie"
proof -
  let ?h = "\<lambda>_::nat. Node (CHR ''R'')"
  have A: "\<And>p. addr ?h 0 p = (if p = [] then Some 0 else None)"
  proof -
    fix p show "addr ?h 0 p = (if p = [] then Some 0 else None)"
      by (cases p) auto
  qed
  have "shape ?h 1 0" unfolding shape_def by (auto simp: A split: if_splits)
  then have "good ?h 1 0" unfolding good_def by (auto simp: A node_ok_Node)
  then show ?thesis unfolding inv_def empty_trie_def by (auto simp: A)
qed

lemma for_each_inv:
  assumes "inv ss tr" and "lower_all ss" and "lower_all xs"
  shows "\<exists>tr'. for_each (\<lambda>s t. insert_iterative t s) xs tr = Inr tr' \<and> inv (ss @ xs) tr'
           \<and> root tr' = root tr"
  using assms
proof (induction xs arbitrary: ss tr)
  case Nil
  then show ?case by simp
next
  case (Cons x xs)
  from Cons.prems have lx: "\<forall>c\<in>set x. lowercase c" and lxs: "lower_all xs"
    by (simp_all add: lower_all_def)
  from insert_iterative_inv [OF Cons.prems(1,2) lx]
  obtain tr1 where 1: "insert_iterative tr x = Inr tr1" "inv (ss @ [x]) tr1" "root tr1 = root tr"
    by blast
  have "lower_all (ss @ [x])" using Cons.prems(2) lx by (simp add: lower_all_def)
  from Cons.IH [OF 1(2) this lxs] 1 show ?case by auto
qed

lemma CatsTrie_inv:
  assumes "lower_all ss"
  shows "\<exists>tr. CatsTrie ss = Inr tr \<and> inv ss tr \<and> root tr = 0"
  using for_each_inv [OF inv_empty _ assms] unfolding CatsTrie_def
  by (auto simp: lower_all_def empty_trie_def)

lemma lex_common_prefix: "(p @ xs \<le> p @ ys) \<longleftrightarrow> (xs \<le> (ys :: nat list))"
  by (induction p) auto

lemma lex_diverge:
  assumes "prefix (p @ [j]) x" and "prefix (p @ [i]) y" and "j < (i::nat)"
  shows "x \<le> y"
proof -
  from assms obtain x' y' where "x = p @ j # x'" "y = p @ i # y'" by (auto simp: prefix_def)
  with assms(3) show ?thesis by (simp add: lex_common_prefix)
qed

lemma enc_le:
  "\<forall>c\<in>set t. lowercase c \<Longrightarrow> \<forall>c\<in>set u. lowercase c \<Longrightarrow> enc t \<le> enc u \<longleftrightarrow> t \<le> u"
proof (induction t arbitrary: u)
  case Nil
  show ?case
  proof (cases u)
    case Nil then show ?thesis by (simp add: enc_def)
  next
    case (Cons d u')
    with Nil.prems lowercase_slot(2) [of d] show ?thesis by (simp add: enc_def)
  qed
next
  case (Cons c t)
  show ?case
  proof (cases u)
    case Nil
    with Cons.prems lowercase_slot(2) [of c] show ?thesis by (simp add: enc_def)
  next
    case (Cons d u')
    with Cons.prems have lc: "lowercase c" and ld: "lowercase d" by simp_all
    have IH: "enc t \<le> enc u' \<longleftrightarrow> t \<le> u'" using Cons.IH Cons.prems Cons by simp
    have "slot c = slot d \<longleftrightarrow> c = d" using slot_inj [OF lc ld] by auto
    with IH slot_less [OF lc ld] Cons show ?thesis
      using enc_def by (simp add: enc_def)
  qed
qed

lemma zero_prefix:
  assumes "prefix p (enc u)" and "0 \<in> set p" and "\<forall>c\<in>set u. lowercase c"
  shows "p = enc u"
proof -
  from assms(1) obtain i where i: "i \<le> length (enc u)" "p = take i (enc u)"
    by (auto simp: prefix_take_iff)
  have "\<not> i \<le> length u"
  proof
    assume "i \<le> length u"
    then have "p = map slot (take i u)" using i by (simp add: take_enc)
    moreover have "0 \<notin> set (map slot (take i u))"
      using slot_nonzero [OF assms(3)] by (auto dest: in_set_takeD)
    ultimately show False using assms(2) by simp
  qed
  with i show ?thesis by simp
qed

lemma nonzero_prefix:
  assumes "prefix p (enc u)" and "0 \<notin> set p"
  shows "length p < length (enc u) \<and> prefix (p @ [enc u ! length p]) (enc u)"
proof -
  from assms(1) obtain z where z: "enc u = p @ z" by (auto simp: prefix_def)
  have "z \<noteq> []"
  proof
    assume "z = []"
    with z have "p = enc u" by simp
    with assms(2) show False by (simp add: enc_def)
  qed
  then obtain i z' where "z = i # z'" by (cases z) auto
  with z show ?thesis by (simp add: prefix_def)
qed

lemma follow_best_internal:
  "char (h a) \<noteq> CHR ''$'' \<Longrightarrow> follow_best h (Some a) = follow_best h (best_child (h a))"
  by (subst follow_best.simps) simp

lemma follow_best_terminal:
  "char (h a) = CHR ''$'' \<Longrightarrow> follow_best h (Some a) = Some (Inr (word (h a)))"
  by (subst follow_best.simps) simp

lemma inv_completion:
  assumes i: "inv ss tr" and a: "addr (heap tr) (root tr) p = Some a" and n: "p \<noteq> [] \<or> ss \<noteq> []"
  shows "\<exists>u\<in>set ss. prefix p (enc u)"
proof (cases "p = []")
  case True
  with n obtain u where "u \<in> set ss" by (cases ss) auto
  with True show ?thesis by auto
next
  case False
  with inv_paths [OF i, of p] a show ?thesis by simp
qed

lemma best_chain:
  assumes i: "inv ss tr" and la: "lower_all ss"
  shows "addr (heap tr) (root tr) p = Some a \<Longrightarrow> p \<noteq> [] \<or> ss \<noteq> [] \<Longrightarrow>
         Suc (sum_list (map length ss)) - length p = d \<Longrightarrow>
     \<exists>t n T. t \<in> set ss \<and> prefix p (enc t) \<and> nth_best (heap tr) n a = Some T
        \<and> (0 \<notin> set p \<longrightarrow> 0 < n)
        \<and> addr (heap tr) (root tr) (enc t) = Some T
        \<and> follow_best (heap tr) (Some a) = Some (Inr (Some t))
        \<and> word_freq (heap tr a) = int (count_list ss t)
        \<and> (\<forall>u\<in>set ss. prefix p (enc u) \<longrightarrow> better ss t u)
        \<and> (0 \<notin> set p \<longrightarrow> (\<exists>j<27. \<exists>b. links (heap tr a) ! j = Some b
               \<and> best_child (heap tr a) = Some b \<and> prefix (p @ [j]) (enc t)))"
proof (induction d arbitrary: p a)
  case 0
  let ?h = "heap tr" and ?r = "root tr"
  note g = inv_good [OF i]
  from inv_completion [OF i 0(1,2)] obtain u where u: "u \<in> set ss" "prefix p (enc u)"
    by auto
  with la have lu: "\<forall>c\<in>set u. lowercase c" by (simp add: lower_all_def)
  have "length u \<le> sum_list (map length ss)" using u(1) by (simp add: member_le_sum_list)
  with 0 have "length (enc u) \<le> length p" by simp
  moreover from u(2) obtain z where "enc u = p @ z" by (auto simp: prefix_def)
  ultimately have pe: "p = enc u" by (cases z) auto
  have pa: "addr ?h ?r (map slot u @ [0]) = Some a" using 0 pe by (simp add: enc_def)
  from good_terminal [OF g pa] have "char (?h a) = CHR ''$''" by simp
  then have fb: "follow_best ?h (Some a) = Some (Inr (word (?h a)))"
    using follow_best_terminal [of ?h a] by simp
  have opt: "\<forall>v\<in>set ss. prefix p (enc v) \<longrightarrow> better ss u v"
  proof (intro ballI impI)
    fix v assume v: "v \<in> set ss" "prefix p (enc v)"
    with la have "\<forall>c\<in>set v. lowercase c" by (simp add: lower_all_def)
    from enc_prefix_eq [OF _ lu this] v pe have "u = v" by simp
    then show "better ss u v" by (simp add: better_def)
  qed
  from inv_terminal [OF i u(1)] 0 pe fb u opt
  show ?case
    by (intro exI [of _ u] exI [of _ 0] exI [of _ a]) (simp add: enc_def)
next
  case (Suc d)
  let ?h = "heap tr" and ?r = "root tr"
  note g = inv_good [OF i]
  note sh = good_shape [OF g]
  from inv_completion [OF i Suc.prems(1,2)] obtain u where u: "u \<in> set ss" "prefix p (enc u)"
    by auto
  with la have lu: "\<forall>c\<in>set u. lowercase c" by (simp add: lower_all_def)
  show ?case
  proof (cases "0 \<in> set p")
    case True
    from zero_prefix [OF u(2) True lu] have pe: "p = enc u" .
    have pa: "addr ?h ?r (map slot u @ [0]) = Some a" using Suc.prems pe by (simp add: enc_def)
    from good_terminal [OF g pa] have "char (?h a) = CHR ''$''" by simp
    then have fb: "follow_best ?h (Some a) = Some (Inr (word (?h a)))"
      using follow_best_terminal [of ?h a] by simp
    have opt: "\<forall>v\<in>set ss. prefix p (enc v) \<longrightarrow> better ss u v"
    proof (intro ballI impI)
      fix v assume v: "v \<in> set ss" "prefix p (enc v)"
      with la have "\<forall>c\<in>set v. lowercase c" by (simp add: lower_all_def)
      from enc_prefix_eq [OF _ lu this] v pe have "u = v" by simp
      then show "better ss u v" by (simp add: better_def)
    qed
    from inv_terminal [OF i u(1)] Suc.prems pe fb u opt True
    show ?thesis
      by (intro exI [of _ u] exI [of _ 0] exI [of _ a]) simp
  next
    case False
    from good_internal [OF g Suc.prems(1) False]
    have ok: "node_ok (\<lambda>x. word_freq (?h x)) (?h a)" and ch: "char (?h a) \<noteq> CHR ''$''"
      by simp_all
    from inv_best [OF i Suc.prems(1) False Suc.prems(2)]
    have bcn: "best_child (?h a) \<noteq> None" .
    with ok [unfolded node_ok_def] obtain j b where j: "j < 27"
      and lb: "links (?h a) ! j = Some b" and bc: "best_child (?h a) = Some b"
      and wab: "word_freq (?h a) = word_freq (?h b)"
      and lo: "\<forall>i'<27. \<forall>c. links (?h a) ! i' = Some c \<longrightarrow>
                 word_freq (?h c) < word_freq (?h b) \<or> (word_freq (?h c) = word_freq (?h b) \<and> j \<le> i')"
      by auto
    have pb: "addr ?h ?r (p @ [j]) = Some b"
      using Suc.prems(1) j lb by (simp add: addr_snoc shape_len [OF sh])
    have dd: "\<And>i'. Suc (sum_list (map length ss)) - length (p @ [i']) = d"
      using Suc.prems(3) by simp
    from Suc.IH [OF pb _ dd]
    obtain t n T where t: "t \<in> set ss" "prefix (p @ [j]) (enc t)"
      and nb: "nth_best ?h n b = Some T" and aT: "addr ?h ?r (enc t) = Some T"
      and fb: "follow_best ?h (Some b) = Some (Inr (Some t))"
      and wb: "word_freq (?h b) = int (count_list ss t)"
      and optb: "\<forall>v\<in>set ss. prefix (p @ [j]) (enc v) \<longrightarrow> better ss t v"
      by auto
    have pt: "prefix p (enc t)" using t(2) by (rule append_prefixD)
    have fa: "follow_best ?h (Some a) = Some (Inr (Some t))"
      using follow_best_internal [of ?h a] ch bc fb by simp
    have na: "nth_best ?h (Suc n) a = Some T" using bc nb by simp
    have opt: "\<forall>v\<in>set ss. prefix p (enc v) \<longrightarrow> better ss t v"
    proof (intro ballI impI)
      fix v assume v: "v \<in> set ss" "prefix p (enc v)"
      from nonzero_prefix [OF v(2) False]
      obtain i' where i': "prefix (p @ [i']) (enc v)" by blast
      show "better ss t v"
      proof (cases "i' = j")
        case True with optb v i' show ?thesis by simp
      next
        case ne: False
        from inv_paths [OF i, of "p @ [i']"] v(1) i'
        obtain c where pc: "addr ?h ?r (p @ [i']) = Some c" by auto
        then have lc: "i' < 27" "links (?h a) ! i' = Some c"
          using Suc.prems(1) by (auto simp: addr_snoc shape_len [OF sh] split: if_splits)
        from Suc.IH [OF pc _ dd]
        obtain tc where tc: "word_freq (?h c) = int (count_list ss tc)"
          and optc: "\<forall>v\<in>set ss. prefix (p @ [i']) (enc v) \<longrightarrow> better ss tc v"
          by auto
        from optc v(1) i' have "better ss tc v" by simp
        then have le: "int (count_list ss v) \<le> word_freq (?h c)"
          using tc by (auto simp: better_def)
        from lo lc have "word_freq (?h c) < word_freq (?h b)
                 \<or> (word_freq (?h c) = word_freq (?h b) \<and> j \<le> i')" by blast
        then show ?thesis
        proof
          assume "word_freq (?h c) < word_freq (?h b)"
          with le wb show ?thesis by (simp add: better_def)
        next
          assume "word_freq (?h c) = word_freq (?h b) \<and> j \<le> i'"
          with ne have ji: "j < i'" and "int (count_list ss v) \<le> int (count_list ss t)"
            using le wb by simp_all
          moreover have "enc t \<le> enc v" by (rule lex_diverge [OF t(2) i' ji])
          ultimately show ?thesis by (auto simp: better_def)
        qed
      qed
    qed
    have sl: "\<exists>j<27. \<exists>b. links (?h a) ! j = Some b \<and> best_child (?h a) = Some b
                \<and> prefix (p @ [j]) (enc t)"
      using j lb bc t(2) by blast
    from t(1) pt na aT fa wab wb opt sl show ?thesis
      by (intro exI [of _ t] exI [of _ "Suc n"] exI [of _ T]) simp
  qed
qed

lemma walk_prompt_addr:
  assumes len: "\<forall>a. length (links (h a)) = 27"
  shows "\<forall>c\<in>set cs. lowercase c \<Longrightarrow> walk_prompt h cs a = Inr (addr h a (map slot cs))"
proof (induction cs arbitrary: a)
  case Nil
  show ?case by simp
next
  case (Cons c cs)
  then have lc: "lowercase c" by simp
  from lowercase_slot [OF lc]
  have "py_index 27 (index_of c) = Some (slot c)" and "slot c \<le> 26" by simp_all
  with Cons len show ?case by (simp split: option.splits)
qed

lemma slot_zero_free: "\<forall>c\<in>set p. lowercase c \<Longrightarrow> 0 \<notin> set (map slot p)"
proof
  assume l: "\<forall>c\<in>set p. lowercase c" and "0 \<in> set (map slot p)"
  then obtain c where "c \<in> set p" "slot c = 0" by auto
  with l lowercase_slot(2) [of c] show False by simp
qed

lemma prefix_map_slot:
  assumes p: "\<forall>c\<in>set p. lowercase c" and u: "\<forall>c\<in>set u. lowercase c"
  shows "prefix (map slot p) (enc u) \<longleftrightarrow> prefix p u"
proof
  assume "prefix p u"
  then have "prefix (map slot p) (map slot u)" by (rule map_mono_prefix)
  then show "prefix (map slot p) (enc u)" by (simp add: enc_def)
next
  assume a: "prefix (map slot p) (enc u)"
  have z: "0 \<notin> set (map slot p)" by (rule slot_zero_free [OF p])
  from a have "prefix (map slot p) (map slot u)
      \<or> (\<exists>us. map slot p = map slot u @ us \<and> prefix us [0] \<and> us \<noteq> [])"
    by (auto simp: enc_def prefix_append)
  then have "prefix (map slot p) (map slot u)"
  proof
    assume "\<exists>us. map slot p = map slot u @ us \<and> prefix us [0] \<and> us \<noteq> []"
    then obtain us where e: "map slot p = map slot u @ us" and "prefix us [0]" "us \<noteq> []"
      by blast
    then have "us = [0]" by (cases us) auto
    with e have "0 \<in> set (map slot p)" by simp
    with z show ?thesis by simp
  qed
  then have "map slot p = take (length p) (map slot u)"
    by (auto simp: prefix_def)
  then have "map slot p = map slot (take (length p) u)" by (simp add: take_map)
  moreover have "\<forall>c\<in>set (take (length p) u). lowercase c"
    using u by (meson in_set_takeD)
  ultimately have "p = take (length p) u" using p by (intro map_slot_inj) simp_all
  then show "prefix p u" by (metis take_is_prefix)
qed

lemma autoComplete_opt:
  assumes i: "inv ss tr" and la: "lower_all ss" and s: "s \<in> set ss" and ps: "prefix prompt s"
  shows "\<exists>t N n T. t \<in> set ss \<and> prefix prompt t
       \<and> addr (heap tr) (root tr) (map slot prompt) = Some N
       \<and> nth_best (heap tr) n N = Some T \<and> 0 < n
       \<and> addr (heap tr) (root tr) (enc t) = Some T
       \<and> autoComplete tr prompt = Some (Inr (Some t))
       \<and> word_freq (heap tr N) = int (count_list ss t)
       \<and> (\<forall>u\<in>set ss. prefix prompt u \<longrightarrow>
            count_list ss u < count_list ss t \<or> (count_list ss u = count_list ss t \<and> t \<le> u))
       \<and> (\<exists>j<27. \<exists>b. links (heap tr N) ! j = Some b \<and> best_child (heap tr N) = Some b
             \<and> prefix (map slot prompt @ [j]) (enc t))"
proof -
  let ?h = "heap tr" and ?r = "root tr" and ?p = "map slot prompt"
  note g = inv_good [OF i]
  note sh = good_shape [OF g]
  from la s have ls: "\<forall>c\<in>set s. lowercase c" by (simp add: lower_all_def)
  from ps have "set prompt \<subseteq> set s" by (auto simp: prefix_def)
  with ls have lp: "\<forall>c\<in>set prompt. lowercase c" by blast
  have z: "0 \<notin> set ?p" by (rule slot_zero_free [OF lp])
  from ps have "prefix ?p (enc s)" by (simp add: prefix_map_slot [OF lp ls])
  with inv_paths [OF i, of ?p] s obtain N where aN: "addr ?h ?r ?p = Some N" by auto
  from s have ne: "?p \<noteq> [] \<or> ss \<noteq> []" by auto
  from best_chain [OF i la aN ne refl]
  obtain t n T where W: "t \<in> set ss \<and> prefix ?p (enc t) \<and> nth_best ?h n N = Some T
        \<and> (0 \<notin> set ?p \<longrightarrow> 0 < n)
        \<and> addr ?h ?r (enc t) = Some T
        \<and> follow_best ?h (Some N) = Some (Inr (Some t))
        \<and> word_freq (?h N) = int (count_list ss t)
        \<and> (\<forall>u\<in>set ss. prefix ?p (enc u) \<longrightarrow> better ss t u)
        \<and> (0 \<notin> set ?p \<longrightarrow> (\<exists>j<27. \<exists>b. links (?h N) ! j = Some b
               \<and> best_child (?h N) = Some b \<and> prefix (?p @ [j]) (enc t)))"
    by (elim exE)
  from W z have t: "t \<in> set ss" "prefix ?p (enc t)"
    and nb: "nth_best ?h n N = Some T" "0 < n"
    and aT: "addr ?h ?r (enc t) = Some T"
    and fb: "follow_best ?h (Some N) = Some (Inr (Some t))"
    and wf: "word_freq (?h N) = int (count_list ss t)"
    and opt: "\<forall>u\<in>set ss. prefix ?p (enc u) \<longrightarrow> better ss t u"
    and sl: "\<exists>j<27. \<exists>b. links (?h N) ! j = Some b \<and> best_child (?h N) = Some b
               \<and> prefix (?p @ [j]) (enc t)"
    by blast+
  from la t(1) have lt: "\<forall>c\<in>set t. lowercase c" by (simp add: lower_all_def)
  from t(2) have pt: "prefix prompt t" by (simp add: prefix_map_slot [OF lp lt])
  from good_internal [OF g aN z] have "char (?h N) \<noteq> CHR ''$''" by simp
  then have "follow_best ?h (best_child (?h N)) = Some (Inr (Some t))"
    using follow_best_internal [of ?h N] fb by simp
  moreover have "walk_prompt ?h prompt ?r = Inr (Some N)"
    using walk_prompt_addr [of ?h prompt ?r] shape_len [OF sh] lp aN by simp
  ultimately have ac: "autoComplete tr prompt = Some (Inr (Some t))"
    by (simp add: autoComplete_def)
  have opt': "\<forall>u\<in>set ss. prefix prompt u \<longrightarrow>
            count_list ss u < count_list ss t \<or> (count_list ss u = count_list ss t \<and> t \<le> u)"
  proof (intro ballI impI)
    fix u assume u: "u \<in> set ss" "prefix prompt u"
    with la have lu: "\<forall>c\<in>set u. lowercase c" by (simp add: lower_all_def)
    from u(2) have "prefix ?p (enc u)" by (simp add: prefix_map_slot [OF lp lu])
    with opt u(1) have "better ss t u" by simp
    then show "count_list ss u < count_list ss t \<or> (count_list ss u = count_list ss t \<and> t \<le> u)"
      by (simp add: better_def enc_le [OF lt lu])
  qed
  from t(1) pt aN nb aT ac wf opt' sl show ?thesis by blast
qed

lemma CatsTrie_invD:
  assumes "CatsTrie ss = Inr tr" and "lower_all ss"
  shows "inv ss tr" and "root tr = 0"
  using CatsTrie_inv [OF assms(2)] assms(1) by auto

lemma CatsTrie_snoc:
  "CatsTrie (ss @ [s]) = (case CatsTrie ss of Inl e \<Rightarrow> Inl e | Inr tr \<Rightarrow> insert_iterative tr s)"
  by (simp add: CatsTrie_def for_each_append split: sum.splits)

lemma zero_last:
  assumes g: "good h nf r" and a: "addr h r p = Some a" and z: "0 \<in> set p"
  shows "\<exists>p1. p = p1 @ [0]"
proof -
  from z obtain p1 p2 where p: "p = p1 @ 0 # p2" by (meson split_list)
  then have p': "p = (p1 @ [0]) @ p2" by simp
  from a obtain T where T: "addr h r (p1 @ [0]) = Some T" and r: "addr h T p2 = Some a"
    unfolding p' addr_append [of h r "p1 @ [0]" p2] by (auto split: option.splits)
  from good_terminal [OF g T] have n: "\<forall>i<27. links (h T) ! i = None" by simp
  have "p2 = []"
  proof (cases p2)
    case Nil then show ?thesis .
  next
    case (Cons i p3)
    with r n shape_len [OF good_shape [OF g], of T] show ?thesis
      by (auto split: if_splits option.splits)
  qed
  with p show ?thesis by simp
qed

lemma nonterminal_path:
  assumes g: "good h nf r" and a: "addr h r p = Some a" and c: "char (h a) \<noteq> CHR ''$''"
  shows "0 \<notin> set p"
proof
  assume "0 \<in> set p"
  from zero_last [OF g a this] obtain p1 where "p = p1 @ [0]" ..
  with a good_terminal [OF g, of p1 a] c show False by simp
qed

lemma terminal_path:
  assumes g: "good h nf r" and a: "addr h r p = Some a" and c: "char (h a) = CHR ''$''"
  shows "0 \<in> set p"
  using good_internal [OF g a] c by blast

lemma inv_node_best:
  assumes i: "inv ss tr" and la: "lower_all ss" and ne: "ss \<noteq> []"
    and a: "addr (heap tr) (root tr) p = Some N" and ch: "char (heap tr N) \<noteq> CHR ''$''"
  shows "\<exists>j b n T t. j < 27 \<and> links (heap tr N) ! j = Some b \<and> best_child (heap tr N) = Some b
           \<and> 0 < n \<and> nth_best (heap tr) n N = Some T \<and> char (heap tr T) = CHR ''$''
           \<and> (\<exists>q. addr (heap tr) N q = Some T)
           \<and> word (heap tr T) = Some t
           \<and> word_freq (heap tr N) = word_freq (heap tr T)
           \<and> (\<forall>q T'. addr (heap tr) N q = Some T' \<longrightarrow> char (heap tr T') = CHR ''$'' \<longrightarrow>
                (\<exists>t'. word (heap tr T') = Some t'
                   \<and> (word_freq (heap tr T') < word_freq (heap tr T)
                      \<or> (word_freq (heap tr T') = word_freq (heap tr T) \<and> t \<le> t'))))"
proof -
  let ?h = "heap tr" and ?r = "root tr"
  note g = inv_good [OF i]
  have z: "0 \<notin> set p" by (rule nonterminal_path [OF g a ch])
  from ne have ne': "p \<noteq> [] \<or> ss \<noteq> []" by simp
  from best_chain [OF i la a ne' refl]
  obtain t n T where W: "t \<in> set ss \<and> prefix p (enc t) \<and> nth_best ?h n N = Some T
        \<and> (0 \<notin> set p \<longrightarrow> 0 < n)
        \<and> addr ?h ?r (enc t) = Some T
        \<and> follow_best ?h (Some N) = Some (Inr (Some t))
        \<and> word_freq (?h N) = int (count_list ss t)
        \<and> (\<forall>u\<in>set ss. prefix p (enc u) \<longrightarrow> better ss t u)
        \<and> (0 \<notin> set p \<longrightarrow> (\<exists>j<27. \<exists>b. links (?h N) ! j = Some b
               \<and> best_child (?h N) = Some b \<and> prefix (p @ [j]) (enc t)))"
    by (elim exE)
  from W z have t: "t \<in> set ss" "prefix p (enc t)"
    and nb: "nth_best ?h n N = Some T" "0 < n"
    and aT: "addr ?h ?r (enc t) = Some T"
    and wf: "word_freq (?h N) = int (count_list ss t)"
    and opt: "\<forall>u\<in>set ss. prefix p (enc u) \<longrightarrow> better ss t u"
    and sl: "\<exists>j<27. \<exists>b. links (?h N) ! j = Some b \<and> best_child (?h N) = Some b"
    by blast+
  from sl obtain j b where jb: "j < 27" "links (?h N) ! j = Some b" "best_child (?h N) = Some b"
    by blast
  from la t(1) have lt: "\<forall>c\<in>set t. lowercase c" by (simp add: lower_all_def)
  from aT have "addr ?h ?r (map slot t @ [0]) = Some T" by (simp add: enc_def)
  from good_terminal [OF g this] have cT: "char (?h T) = CHR ''$''" by simp
  from inv_terminal [OF i t(1) aT]
  have wT: "word (?h T) = Some t" "word_freq (?h T) = int (count_list ss t)" by simp_all
  from t(2) obtain q where q: "enc t = p @ q" by (auto simp: prefix_def)
  with aT a have rT: "addr ?h N q = Some T" by (simp add: addr_append)
  have sub: "\<forall>q T'. addr ?h N q = Some T' \<longrightarrow> char (?h T') = CHR ''$'' \<longrightarrow>
                (\<exists>t'. word (?h T') = Some t'
                   \<and> (word_freq (?h T') < word_freq (?h T)
                      \<or> (word_freq (?h T') = word_freq (?h T) \<and> t \<le> t')))"
  proof (intro allI impI)
    fix q T' assume q: "addr ?h N q = Some T'" and c: "char (?h T') = CHR ''$''"
    from q a have pq: "addr ?h ?r (p @ q) = Some T'" by (simp add: addr_append)
    from terminal_path [OF g pq c] have z': "0 \<in> set (p @ q)" .
    from inv_completion [OF i pq] ne obtain v where v: "v \<in> set ss" "prefix (p @ q) (enc v)"
      by auto
    from la v(1) have lv: "\<forall>c\<in>set v. lowercase c" by (simp add: lower_all_def)
    from zero_prefix [OF v(2) z' lv] have e: "p @ q = enc v" .
    with pq have "addr ?h ?r (enc v) = Some T'" by simp
    from inv_terminal [OF i v(1) this]
    have wv: "word (?h T') = Some v" "word_freq (?h T') = int (count_list ss v)" by simp_all
    from e have "prefix p (enc v)" by (metis prefixI)
    with opt v(1) have "better ss t v" by simp
    then have "count_list ss v < count_list ss t \<or> (count_list ss v = count_list ss t \<and> t \<le> v)"
      by (simp add: better_def enc_le [OF lt lv])
    with wv wT show "\<exists>t'. word (?h T') = Some t'
                   \<and> (word_freq (?h T') < word_freq (?h T)
                      \<or> (word_freq (?h T') = word_freq (?h T) \<and> t \<le> t'))"
      by auto
  qed
  have rT': "\<exists>q. addr ?h N q = Some T" using rT by blast
  have wN: "word_freq (?h N) = word_freq (?h T)" using wf wT by simp
  from jb nb cT rT' wT(1) wN sub show ?thesis by blast
qed

lemma child_or_new_frame:
  "child_or_new h nf cur i c = (h', nf', x) \<Longrightarrow> a \<noteq> cur \<Longrightarrow> a \<noteq> x \<Longrightarrow> h' a = h a"
  by (auto simp: child_or_new_def Let_def split: option.splits)

lemma insert_loop_frame:
  "insert_loop cs (h, nf, ntu, cur) = Inr (h', nf', ntu', cur') \<Longrightarrow>
     \<exists>Q. ntu' = ntu @ Q \<and> length Q = length cs \<and> hd (Q @ [cur']) = cur
        \<and> (\<forall>a. a \<notin> set Q \<longrightarrow> a \<noteq> cur' \<longrightarrow> h' a = h a)"
proof (induction cs arbitrary: h nf ntu cur)
  case Nil
  then show ?case by simp
next
  case (Cons c cs)
  from Cons.prems obtain i where i: "py_index (length (links (h cur))) (index_of c) = Some i"
    by (auto split: option.splits)
  obtain h1 nf1 x where cn: "child_or_new h nf cur i c = (h1, nf1, x)"
    by (cases "child_or_new h nf cur i c") auto
  with Cons.prems i have "insert_loop cs (h1, nf1, ntu @ [cur], x) = Inr (h', nf', ntu', cur')"
    by simp
  from Cons.IH [OF this] obtain Q where Q: "ntu' = (ntu @ [cur]) @ Q" "length Q = length cs"
    "hd (Q @ [cur']) = x" "\<forall>a. a \<notin> set Q \<longrightarrow> a \<noteq> cur' \<longrightarrow> h' a = h1 a"
    by blast
  have xin: "x \<in> set Q \<or> x = cur'" using Q(3) by (cases Q) auto
  have "\<forall>a. a \<notin> set (cur # Q) \<longrightarrow> a \<noteq> cur' \<longrightarrow> h' a = h a"
  proof (intro allI impI)
    fix a assume a: "a \<notin> set (cur # Q)" "a \<noteq> cur'"
    with xin have "a \<noteq> x" "a \<noteq> cur" by auto
    from child_or_new_frame [OF cn this(2,1)] Q(4) a show "h' a = h a" by simp
  qed
  with Q(1,2) show ?case by (intro exI [of _ "cur # Q"]) simp
qed

lemma insert_walk_frame:
  assumes "insert_walk tr s = Inr tw"
  shows "\<exists>P. nodes_to_update tw = Some P \<and> length P = length s + 2 \<and> hd P = root tr
           \<and> root tw = root tr \<and> (\<forall>a. a \<notin> set P \<longrightarrow> heap tw a = heap tr a)"
proof -
  from assms obtain h nf ntu cur
    where il: "insert_loop s (heap tr, next_free tr, [], root tr) = Inr (h, nf, ntu, cur)"
    by (auto simp: insert_walk_def split: sum.splits)
  with assms obtain z where z: "py_index (length (links (h cur))) 0 = Some z"
    by (auto simp: insert_walk_def split: option.splits)
  obtain h1 nf1 T where cn: "child_or_new h nf cur z (CHR ''$'') = (h1, nf1, T)"
    by (cases "child_or_new h nf cur z (CHR ''$'')") auto
  from assms il z cn
  have tw: "tw = tr\<lparr>heap := h1(T := (h1 T)\<lparr>word_freq := word_freq (h1 T) + 1, word := Some s\<rparr>),
                     next_free := nf1, nodes_to_update := Some (ntu @ [cur] @ [T])\<rparr>"
    by (simp add: insert_walk_def Let_def)
  from insert_loop_frame [OF il] have len: "length ntu = length s"
    and hd: "hd (ntu @ [cur]) = root tr"
    and fr: "\<forall>a. a \<notin> set ntu \<longrightarrow> a \<noteq> cur \<longrightarrow> h a = heap tr a"
    by auto
  have "\<forall>a. a \<notin> set (ntu @ [cur] @ [T]) \<longrightarrow> heap tw a = heap tr a"
  proof (intro allI impI)
    fix a assume "a \<notin> set (ntu @ [cur] @ [T])"
    then have a: "a \<notin> set ntu" "a \<noteq> cur" "a \<noteq> T" by auto
    from child_or_new_frame [OF cn a(2,3)] fr a show "heap tw a = heap tr a"
      by (simp add: tw)
  qed
  moreover have "hd (ntu @ [cur] @ [T]) = root tr" using hd by (cases ntu) auto
  ultimately show ?thesis using len by (simp add: tw)
qed

lemma init_step_frame: "a \<noteq> P ! i \<Longrightarrow> init_step P i h a = h a"
  by (simp add: init_step_def Let_def)

lemma init_step_fields:
  "links (init_step P i h a) = links (h a) \<and> char (init_step P i h a) = char (h a)
     \<and> word (init_step P i h a) = word (h a)"
  by (simp add: init_step_def Let_def)

lemma cmp_step_frame: "cmp_step P f i h = Inr h' \<Longrightarrow> a \<noteq> P ! i \<Longrightarrow> h' a = h a"
  by (auto simp: cmp_step_def Let_def split: option.splits if_splits)

lemma cmp_step_fields:
  "cmp_step P f i h = Inr h' \<Longrightarrow>
     links (h' a) = links (h a) \<and> char (h' a) = char (h a) \<and> word (h' a) = word (h a)"
  by (auto simp: cmp_step_def Let_def split: option.splits if_splits)

lemma init_fold_frame:
  "\<forall>i\<in>set ns. i < length P \<Longrightarrow> a \<notin> set P \<Longrightarrow> fold (init_step P) ns h a = h a"
proof (induction ns arbitrary: h)
  case Nil
  show ?case by simp
next
  case (Cons n ns)
  then have "a \<noteq> P ! n" by (metis list.set_intros(1) nth_mem)
  with Cons show ?case by (simp add: init_step_frame)
qed

lemma init_fold_fields:
  "links (fold (init_step P) ns h a) = links (h a) \<and> char (fold (init_step P) ns h a) = char (h a)
     \<and> word (fold (init_step P) ns h a) = word (h a)"
  by (induction ns arbitrary: h) (simp_all add: init_step_fields)

lemma cmp_for_each_frame:
  "for_each (cmp_step P f) ns h = Inr h' \<Longrightarrow> \<forall>i\<in>set ns. i < length P \<Longrightarrow> a \<notin> set P \<Longrightarrow>
     h' a = h a"
proof (induction ns arbitrary: h)
  case Nil
  then show ?case by simp
next
  case (Cons n ns)
  from Cons.prems(1) obtain h1 where h1: "cmp_step P f n h = Inr h1"
    and r: "for_each (cmp_step P f) ns h1 = Inr h'"
    by (auto split: sum.splits)
  from Cons.prems have "a \<noteq> P ! n" by (metis list.set_intros(1) nth_mem)
  from cmp_step_frame [OF h1 this] have "h1 a = h a" .
  moreover from Cons.IH [OF r] Cons.prems have "h' a = h1 a" by simp
  ultimately show ?case by simp
qed

lemma cmp_for_each_fields:
  "for_each (cmp_step P f) ns h = Inr h' \<Longrightarrow>
     links (h' a) = links (h a) \<and> char (h' a) = char (h a) \<and> word (h' a) = word (h a)"
proof (induction ns arbitrary: h)
  case Nil
  then show ?case by simp
next
  case (Cons n ns)
  from Cons.prems(1) obtain h1 where h1: "cmp_step P f n h = Inr h1"
    and r: "for_each (cmp_step P f) ns h1 = Inr h'"
    by (auto split: sum.splits)
  from cmp_step_fields [OF h1, of a] Cons.IH [OF r] show ?case by simp
qed

lemma update_nodes_frame:
  assumes u: "update_nodes tw = Inr tr'" and ntu: "nodes_to_update tw = Some P"
  shows "nodes_to_update tr' = Some P \<and> root tr' = root tw \<and> next_free tr' = next_free tw
           \<and> (\<forall>a. a \<notin> set P \<longrightarrow> heap tr' a = heap tw a)
           \<and> (\<forall>a. links (heap tr' a) = links (heap tw a) \<and> char (heap tr' a) = char (heap tw a)
                  \<and> word (heap tr' a) = word (heap tw a))"
proof -
  define h1 where "h1 = fold (init_step P) [0 ..< length P - 1] (heap tw)"
  define f where "f = word_freq (h1 (last P))"
  define par where "par = P ! (length P - 2)"
  from u ntu obtain h2 where h2: "for_each (cmp_step P f) [0 ..< length P - 1] h1 = Inr h2"
    and len: "\<not> length P < 2"
    and tr': "tr' = tw\<lparr>heap := h2(par := (h2 par)\<lparr>word_freq := f\<rparr>)\<rparr> \<or> tr' = tw\<lparr>heap := h2\<rparr>"
    unfolding update_nodes_def h1_def f_def par_def Let_def
    by (auto split: if_splits sum.splits)
  have rng: "\<forall>i\<in>set [0 ..< length P - 1]. i < length P" by auto
  have pin: "par \<in> set P" unfolding par_def using len by simp
  have fr: "\<forall>a. a \<notin> set P \<longrightarrow> h2 a = heap tw a"
  proof (intro allI impI)
    fix a assume a: "a \<notin> set P"
    from cmp_for_each_frame [OF h2 rng a] init_fold_frame [OF rng a, of "heap tw"]
    show "h2 a = heap tw a" by (simp add: h1_def)
  qed
  have fl: "\<forall>a. links (h2 a) = links (heap tw a) \<and> char (h2 a) = char (heap tw a)
                  \<and> word (h2 a) = word (heap tw a)"
  proof
    fix a
    from cmp_for_each_fields [OF h2, of a] init_fold_fields [of P "[0 ..< length P - 1]" "heap tw" a]
    show "links (h2 a) = links (heap tw a) \<and> char (h2 a) = char (heap tw a)
                  \<and> word (h2 a) = word (heap tw a)"
      by (simp add: h1_def)
  qed
  from tr' show ?thesis
  proof
    assume "tr' = tw\<lparr>heap := h2(par := (h2 par)\<lparr>word_freq := f\<rparr>)\<rparr>"
    with ntu fr fl pin show ?thesis by auto
  next
    assume "tr' = tw\<lparr>heap := h2\<rparr>"
    with ntu fr fl show ?thesis by auto
  qed
qed

lemma insert_iterative_frame:
  assumes "insert_iterative tr s = Inr tr'"
  shows "\<exists>P. nodes_to_update tr' = Some P \<and> length P = length s + 2 \<and> hd P = root tr
           \<and> root tr' = root tr \<and> (\<forall>a. a \<notin> set P \<longrightarrow> heap tr' a = heap tr a)"
proof -
  from assms obtain tw where tw: "insert_walk tr s = Inr tw" and u: "update_nodes tw = Inr tr'"
    by (auto simp: insert_iterative_def split: sum.splits)
  from insert_walk_frame [OF tw] obtain P where P: "nodes_to_update tw = Some P"
    "length P = length s + 2" "hd P = root tr" "root tw = root tr"
    "\<forall>a. a \<notin> set P \<longrightarrow> heap tw a = heap tr a"
    by blast
  from update_nodes_frame [OF u P(1)] P show ?thesis by auto
qed

lemma better_antisym:
  assumes "better ss t u" and "better ss u t"
    and lt: "\<forall>c\<in>set t. lowercase c" and lu: "\<forall>c\<in>set u. lowercase c"
  shows "t = u"
proof -
  from assms(1,2) have "enc t = enc u" by (auto simp: better_def)
  then have "prefix (enc t) (enc u)" by simp
  from enc_prefix_eq [OF this lt lu] show ?thesis .
qed

lemma better_counts:
  "\<forall>x. count_list ss1 x = count_list ss2 x \<Longrightarrow> better ss1 t u = better ss2 t u"
  by (simp add: better_def)

lemma counts_set:
  assumes "\<forall>x. count_list ss1 x = count_list ss2 x"
  shows "set ss1 = set ss2"
proof -
  have "\<And>x. x \<in> set ss1 \<longleftrightarrow> x \<in> set ss2"
    using assms by (metis count_list_0_iff)
  then show ?thesis by blast
qed

lemma py_index_less: "py_index n i = Some k \<Longrightarrow> k < n"
  by (auto simp: py_index_def split: if_splits)

lemma node_terminal:
  assumes i: "inv ss tr" and la: "lower_all ss"
    and a: "addr (heap tr) (root tr) p = Some a" and z: "0 \<in> set p"
  shows "best_child (heap tr a) = None
           \<and> (\<exists>u\<in>set ss. p = enc u \<and> word_freq (heap tr a) = int (count_list ss u))"
proof -
  note g = inv_good [OF i]
  from zero_last [OF g a z] obtain p1 where p1: "p = p1 @ [0]" ..
  with a good_terminal [OF g, of p1 a] have b: "best_child (heap tr a) = None" by simp
  from z have "p \<noteq> [] \<or> ss \<noteq> []" by auto
  from inv_completion [OF i a this] obtain u where u: "u \<in> set ss" "prefix p (enc u)" by auto
  with la have lu: "\<forall>c\<in>set u. lowercase c" by (simp add: lower_all_def)
  from zero_prefix [OF u(2) z lu] have pe: "p = enc u" .
  with a have "addr (heap tr) (root tr) (enc u) = Some a" by simp
  from inv_terminal [OF i u(1) this] have "word_freq (heap tr a) = int (count_list ss u)" by simp
  with b u(1) pe show ?thesis by blast
qed

lemma node_empty:
  assumes i: "inv [] tr" and a: "addr (heap tr) (root tr) p = Some a"
  shows "p = [] \<and> best_child (heap tr a) = None \<and> word_freq (heap tr a) = 0"
proof -
  note g = inv_good [OF i]
  note sh = good_shape [OF g]
  from inv_paths [OF i, of p] a have p: "p = []" by simp
  with a have ar: "a = root tr" by simp
  from good_internal [OF g a] p have ok: "node_ok (\<lambda>x. word_freq (heap tr x)) (heap tr a)"
    by simp
  have nc: "\<And>j b. j < 27 \<Longrightarrow> links (heap tr a) ! j \<noteq> Some b"
  proof
    fix j b assume "j < 27" "links (heap tr a) ! j = Some b"
    then have "addr (heap tr) (root tr) [j] = Some b"
      using ar shape_len [OF sh, of a] by simp
    with inv_paths [OF i, of "[j]"] show False by simp
  qed
  from ok [unfolded node_ok_def] nc
  have "best_child (heap tr a) = None \<and> word_freq (heap tr a) = 0" by blast
  with p show ?thesis by simp
qed

lemma node_internal:
  assumes i: "inv ss tr" and la: "lower_all ss" and ne: "ss \<noteq> []"
    and a: "addr (heap tr) (root tr) p = Some a" and z: "0 \<notin> set p"
  shows "\<exists>t j b. t \<in> set ss \<and> prefix (p @ [j]) (enc t)
           \<and> (\<forall>u\<in>set ss. prefix p (enc u) \<longrightarrow> better ss t u)
           \<and> j < 27 \<and> best_child (heap tr a) = Some b
           \<and> (\<forall>k<27. links (heap tr a) ! k = Some b \<longleftrightarrow> k = j)
           \<and> word_freq (heap tr a) = int (count_list ss t)
           \<and> follow_best (heap tr) (best_child (heap tr a)) = Some (Inr (Some t))"
proof -
  let ?h = "heap tr" and ?r = "root tr"
  note g = inv_good [OF i]
  note sh = good_shape [OF g]
  from ne have ne': "p \<noteq> [] \<or> ss \<noteq> []" by simp
  from best_chain [OF i la a ne' refl]
  obtain t n T where W: "t \<in> set ss \<and> prefix p (enc t) \<and> nth_best ?h n a = Some T
        \<and> (0 \<notin> set p \<longrightarrow> 0 < n)
        \<and> addr ?h ?r (enc t) = Some T
        \<and> follow_best ?h (Some a) = Some (Inr (Some t))
        \<and> word_freq (?h a) = int (count_list ss t)
        \<and> (\<forall>u\<in>set ss. prefix p (enc u) \<longrightarrow> better ss t u)
        \<and> (0 \<notin> set p \<longrightarrow> (\<exists>j<27. \<exists>b. links (?h a) ! j = Some b
               \<and> best_child (?h a) = Some b \<and> prefix (p @ [j]) (enc t)))"
    by (elim exE)
  from W z have t: "t \<in> set ss"
    and fb: "follow_best ?h (Some a) = Some (Inr (Some t))"
    and wf: "word_freq (?h a) = int (count_list ss t)"
    and opt: "\<forall>u\<in>set ss. prefix p (enc u) \<longrightarrow> better ss t u"
    and sl: "\<exists>j<27. \<exists>b. links (?h a) ! j = Some b
               \<and> best_child (?h a) = Some b \<and> prefix (p @ [j]) (enc t)"
    by blast+
  from sl obtain j b where j: "j < 27" and lb: "links (?h a) ! j = Some b"
    and bc: "best_child (?h a) = Some b" and pj: "prefix (p @ [j]) (enc t)"
    by blast
  have uniq: "\<forall>k<27. links (?h a) ! k = Some b \<longleftrightarrow> k = j"
  proof (intro allI impI iffI)
    fix k assume k: "k < 27" "links (?h a) ! k = Some b"
    then have "addr ?h ?r (p @ [k]) = Some b" using a by (simp add: addr_snoc shape_len [OF sh])
    moreover have "addr ?h ?r (p @ [j]) = Some b"
      using a j lb by (simp add: addr_snoc shape_len [OF sh])
    ultimately have "p @ [k] = p @ [j]" by (rule shape_inj [OF sh])
    then show "k = j" by simp
  next
    fix k assume "k = j"
    with lb show "links (?h a) ! k = Some b" by simp
  qed
  from good_internal [OF g a z] have "char (?h a) \<noteq> CHR ''$''" by simp
  then have "follow_best ?h (best_child (?h a)) = Some (Inr (Some t))"
    using follow_best_internal [of ?h a] fb by simp
  with t pj opt j bc uniq wf show ?thesis by blast
qed

lemma prefix_snoc_same: "prefix (p @ [j]) xs \<Longrightarrow> prefix (p @ [k]) xs \<Longrightarrow> j = k"
  by (auto simp: prefix_def append_eq_append_conv2 Cons_eq_append_conv)

lemma perm_node:
  assumes i1: "inv ss1 t1" and i2: "inv ss2 t2" and la: "lower_all ss1"
    and cnt: "\<forall>x. count_list ss1 x = count_list ss2 x"
    and a1: "addr (heap t1) (root t1) p = Some a1" and a2: "addr (heap t2) (root t2) p = Some a2"
  shows "word_freq (heap t1 a1) = word_freq (heap t2 a2)
     \<and> (\<forall>j<27. (best_child (heap t1 a1) \<noteq> None \<and> links (heap t1 a1) ! j = best_child (heap t1 a1))
               \<longleftrightarrow> (best_child (heap t2 a2) \<noteq> None
                      \<and> links (heap t2 a2) ! j = best_child (heap t2 a2)))
     \<and> follow_best (heap t1) (best_child (heap t1 a1))
         = follow_best (heap t2) (best_child (heap t2 a2))"
proof -
  note se = counts_set [OF cnt]
  from la se have la2: "lower_all ss2" by (simp add: lower_all_def)
  show ?thesis
  proof (cases "0 \<in> set p")
    case True
    from node_terminal [OF i1 la a1 True] obtain u where b1: "best_child (heap t1 a1) = None"
      and u: "u \<in> set ss1" "p = enc u" "word_freq (heap t1 a1) = int (count_list ss1 u)"
      by blast
    from node_terminal [OF i2 la2 a2 True] obtain v where b2: "best_child (heap t2 a2) = None"
      and v: "v \<in> set ss2" "p = enc v" "word_freq (heap t2 a2) = int (count_list ss2 v)"
      by blast
    from u(1) la have lu: "\<forall>c\<in>set u. lowercase c" by (simp add: lower_all_def)
    from v(1) la2 have lv: "\<forall>c\<in>set v. lowercase c" by (simp add: lower_all_def)
    from u(2) v(2) have "prefix (enc u) (enc v)" by simp
    from enc_prefix_eq [OF this lu lv] have "u = v" .
    with u(3) v(3) cnt have "word_freq (heap t1 a1) = word_freq (heap t2 a2)" by simp
    with b1 b2 show ?thesis by (simp add: follow_best.simps)
  next
    case z: False
    show ?thesis
    proof (cases "ss1 = []")
      case True
      with se have "ss2 = []" by simp
      with True i1 i2 have e1: "inv [] t1" and e2: "inv [] t2" by simp_all
      from node_empty [OF e1 a1] node_empty [OF e2 a2] show ?thesis
        by (simp add: follow_best.simps)
    next
      case ne1: False
      with se have ne2: "ss2 \<noteq> []" by auto
      from node_internal [OF i1 la ne1 a1 z]
      obtain t j b where t: "t \<in> set ss1" "prefix (p @ [j]) (enc t)"
        "\<forall>u\<in>set ss1. prefix p (enc u) \<longrightarrow> better ss1 t u"
        "j < 27" "best_child (heap t1 a1) = Some b"
        "\<forall>k<27. links (heap t1 a1) ! k = Some b \<longleftrightarrow> k = j"
        "word_freq (heap t1 a1) = int (count_list ss1 t)"
        "follow_best (heap t1) (best_child (heap t1 a1)) = Some (Inr (Some t))"
        by blast
      from node_internal [OF i2 la2 ne2 a2 z]
      obtain t' j' b' where t': "t' \<in> set ss2" "prefix (p @ [j']) (enc t')"
        "\<forall>u\<in>set ss2. prefix p (enc u) \<longrightarrow> better ss2 t' u"
        "j' < 27" "best_child (heap t2 a2) = Some b'"
        "\<forall>k<27. links (heap t2 a2) ! k = Some b' \<longleftrightarrow> k = j'"
        "word_freq (heap t2 a2) = int (count_list ss2 t')"
        "follow_best (heap t2) (best_child (heap t2 a2)) = Some (Inr (Some t'))"
        by blast
      from t(1) la have lt: "\<forall>c\<in>set t. lowercase c" by (simp add: lower_all_def)
      from t'(1) la2 have lt': "\<forall>c\<in>set t'. lowercase c" by (simp add: lower_all_def)
      have pt: "prefix p (enc t)" using t(2) by (rule append_prefixD)
      have pt': "prefix p (enc t')" using t'(2) by (rule append_prefixD)
      from t(3) t'(1) pt' se have "better ss1 t t'" by simp
      moreover from t'(3) t(1) pt se have "better ss2 t' t" by simp
      then have "better ss1 t' t" by (simp add: better_counts [OF cnt])
      ultimately have tt: "t = t'" using lt lt' by (rule better_antisym)
      with t(2) t'(2) have jj: "j = j'" by (simp add: prefix_snoc_same)
      have wf: "word_freq (heap t1 a1) = word_freq (heap t2 a2)" using t(7) t'(7) tt cnt by simp
      have fb: "follow_best (heap t1) (best_child (heap t1 a1))
         = follow_best (heap t2) (best_child (heap t2 a2))" using t(8) t'(8) tt by simp
      have sl: "\<forall>k<27. (best_child (heap t1 a1) \<noteq> None
                  \<and> links (heap t1 a1) ! k = best_child (heap t1 a1))
               \<longleftrightarrow> (best_child (heap t2 a2) \<noteq> None
                      \<and> links (heap t2 a2) ! k = best_child (heap t2 a2))"
        using t(5,6) t'(5,6) jj by simp
      from wf sl fb show ?thesis by simp
    qed
  qed
qed

lemma perm_paths:
  assumes i1: "inv ss1 t1" and i2: "inv ss2 t2"
    and cnt: "\<forall>x. count_list ss1 x = count_list ss2 x"
  shows "addr (heap t1) (root t1) p = None \<longleftrightarrow> addr (heap t2) (root t2) p = None"
proof -
  have "addr (heap t1) (root t1) p \<noteq> None \<longleftrightarrow> addr (heap t2) (root t2) p \<noteq> None"
    by (simp only: inv_paths [OF i1] inv_paths [OF i2] counts_set [OF cnt])
  then show ?thesis by blast
qed

lemma walk_sim:
  assumes len1: "\<forall>a. length (links (h1 a)) = 27" and len2: "\<forall>a. length (links (h2 a)) = 27"
    and paths: "\<forall>p. addr h1 r1 p = None \<longleftrightarrow> addr h2 r2 p = None"
  shows "addr h1 r1 p = Some a1 \<Longrightarrow> addr h2 r2 p = Some a2 \<Longrightarrow>
     (\<exists>e. walk_prompt h1 cs a1 = Inl e \<and> walk_prompt h2 cs a2 = Inl e)
     \<or> (walk_prompt h1 cs a1 = Inr None \<and> walk_prompt h2 cs a2 = Inr None)
     \<or> (\<exists>q b1 b2. walk_prompt h1 cs a1 = Inr (Some b1) \<and> walk_prompt h2 cs a2 = Inr (Some b2)
           \<and> addr h1 r1 q = Some b1 \<and> addr h2 r2 q = Some b2)"
proof (induction cs arbitrary: p a1 a2)
  case Nil
  then show ?case by auto
next
  case (Cons c cs)
  show ?case
  proof (cases "py_index 27 (index_of c)")
    case None
    with len1 len2 show ?thesis by simp
  next
    case (Some i)
    from py_index_less [OF Some] have i: "i < 27" .
    have s1: "addr h1 r1 (p @ [i]) = links (h1 a1) ! i"
      using Cons.prems(1) i len1 by (simp add: addr_snoc)
    have s2: "addr h2 r2 (p @ [i]) = links (h2 a2) ! i"
      using Cons.prems(2) i len2 by (simp add: addr_snoc)
    show ?thesis
    proof (cases "links (h1 a1) ! i")
      case None
      with s1 s2 paths have "links (h2 a2) ! i = None" by metis
      with None Some len1 len2 show ?thesis by simp
    next
      case b1: (Some b1)
      with s1 s2 paths obtain b2 where b2: "links (h2 a2) ! i = Some b2"
        by (metis option.exhaust option.distinct(1))
      from Cons.IH [of "p @ [i]" b1 b2] s1 s2 b1 b2
      have "(\<exists>e. walk_prompt h1 cs b1 = Inl e \<and> walk_prompt h2 cs b2 = Inl e)
     \<or> (walk_prompt h1 cs b1 = Inr None \<and> walk_prompt h2 cs b2 = Inr None)
     \<or> (\<exists>q c1 c2. walk_prompt h1 cs b1 = Inr (Some c1) \<and> walk_prompt h2 cs b2 = Inr (Some c2)
           \<and> addr h1 r1 q = Some c1 \<and> addr h2 r2 q = Some c2)"
        by simp
      with Some b1 b2 len1 len2 show ?thesis by simp
    qed
  qed
qed

lemma perm_autoComplete:
  assumes i1: "inv ss1 t1" and i2: "inv ss2 t2" and la: "lower_all ss1"
    and cnt: "\<forall>x. count_list ss1 x = count_list ss2 x"
  shows "autoComplete t1 prompt = autoComplete t2 prompt"
proof -
  note sh1 = good_shape [OF inv_good [OF i1]] and sh2 = good_shape [OF inv_good [OF i2]]
  have len1: "\<forall>a. length (links (heap t1 a)) = 27" using shape_len [OF sh1] by simp
  have len2: "\<forall>a. length (links (heap t2 a)) = 27" using shape_len [OF sh2] by simp
  have paths: "\<forall>p. addr (heap t1) (root t1) p = None \<longleftrightarrow> addr (heap t2) (root t2) p = None"
    using perm_paths [OF i1 i2 cnt] by simp
  have r1: "addr (heap t1) (root t1) [] = Some (root t1)"
    and r2: "addr (heap t2) (root t2) [] = Some (root t2)" by simp_all
  from walk_sim [OF len1 len2 paths r1 r2, of prompt]
  consider e where "walk_prompt (heap t1) prompt (root t1) = Inl e"
      "walk_prompt (heap t2) prompt (root t2) = Inl e"
    | "walk_prompt (heap t1) prompt (root t1) = Inr None"
      "walk_prompt (heap t2) prompt (root t2) = Inr None"
    | q b1 b2 where "walk_prompt (heap t1) prompt (root t1) = Inr (Some b1)"
      "walk_prompt (heap t2) prompt (root t2) = Inr (Some b2)"
      "addr (heap t1) (root t1) q = Some b1" "addr (heap t2) (root t2) q = Some b2"
    by (elim disjE exE conjE)
  then show ?thesis
  proof cases
    case 1
    then show ?thesis by (simp add: autoComplete_def)
  next
    case 2
    then show ?thesis by (simp add: autoComplete_def)
  next
    case 3
    from perm_node [OF i1 i2 la cnt 3(3,4)]
    have "follow_best (heap t1) (best_child (heap t1 b1))
         = follow_best (heap t2) (best_child (heap t2 b2))" by simp
    with 3(1,2) show ?thesis by (simp add: autoComplete_def)
  qed
qed

lemma build_and_query_Inr:
  "CatsTrie ss = Inr tr \<Longrightarrow> build_and_query ss p = autoComplete tr p"
  by (simp add: build_and_query_def)

section \<open>The query returns the best completion\<close>

text \<open>
  Claim C1. A trie is built from a list of lowercase sentences and the prompt is a
  prefix of at least one of them. Then \<open>autoComplete\<close> returns an inserted sentence that
  starts with the prompt; no inserted sentence starting with the prompt occurs more
  often in the list; and every such sentence that occurs equally often is
  lexicographically greater or equal.
\<close>

theorem autoComplete_best:
  assumes "CatsTrie ss = Inr tr" and "lower_all ss" and "s \<in> set ss" and "prefix prompt s"
  shows "\<exists>t. autoComplete tr prompt = Some (Inr (Some t)) \<and> t \<in> set ss \<and> prefix prompt t
           \<and> (\<forall>u\<in>set ss. prefix prompt u \<longrightarrow>
                count_list ss u \<le> count_list ss t
                \<and> (count_list ss u = count_list ss t \<longrightarrow> t \<le> u))"
proof -
  note i = CatsTrie_invD(1) [OF assms(1,2)]
  from autoComplete_opt [OF i assms(2,3,4)]
  obtain t where t: "t \<in> set ss" "prefix prompt t"
      "autoComplete tr prompt = Some (Inr (Some t))"
      "\<forall>u\<in>set ss. prefix prompt u \<longrightarrow>
         count_list ss u < count_list ss t \<or> (count_list ss u = count_list ss t \<and> t \<le> u)"
    by blast
  from t(4) have "\<forall>u\<in>set ss. prefix prompt u \<longrightarrow>
                count_list ss u \<le> count_list ss t
                \<and> (count_list ss u = count_list ss t \<longrightarrow> t \<le> u)"
    by auto
  with t(1,2,3) show ?thesis by blast
qed

theorem autoComplete_best_witness:
  "\<exists>tr. CatsTrie [''cb'', ''ca'', ''cb''] = Inr tr
     \<and> lower_all [''cb'', ''ca'', ''cb'']
     \<and> ''ca'' \<in> set [''cb'', ''ca'', ''cb'']
     \<and> prefix ''c'' ''ca''
     \<and> autoComplete tr ''c'' = Some (Inr (Some ''cb''))
     \<and> (\<exists>t. autoComplete tr ''c'' = Some (Inr (Some t))
           \<and> t \<in> set [''cb'', ''ca'', ''cb'']
           \<and> prefix ''c'' t
           \<and> (\<forall>u\<in>set [''cb'', ''ca'', ''cb'']. prefix ''c'' u \<longrightarrow>
                count_list [''cb'', ''ca'', ''cb''] u
                  \<le> count_list [''cb'', ''ca'', ''cb''] t
                \<and> (count_list [''cb'', ''ca'', ''cb''] u
                     = count_list [''cb'', ''ca'', ''cb''] t
                   \<longrightarrow> t \<le> u)))"
proof -
  let ?L = "[''cb'', ''ca'', ''cb'']"
  have la: "lower_all ?L" by code_simp
  have run: "build_and_query ?L ''c'' = Some (Inr (Some ''cb''))" by code_simp
  from CatsTrie_inv [OF la] obtain tr where tr: "CatsTrie ?L = Inr tr" by blast
  have m: "''ca'' \<in> set ?L" by simp
  have p: "prefix ''c'' ''ca''" by simp
  from run have r: "autoComplete tr ''c'' = Some (Inr (Some ''cb''))"
    by (simp add: build_and_query_Inr [OF tr])
  note c = autoComplete_best [OF tr la m p]
  show ?thesis by (intro exI [of _ tr] conjI tr la m p r c)
qed

section \<open>Prompts without a completion\<close>

text \<open>
  Claim C4, as the specification states it, fails: the prompt \<open>{\<close> on the trie built
  from the sentence \<open>abc\<close> makes \<open>ord(char) - 97 + 1\<close> equal to 27, and
  \<open>node.links[27]\<close> raises IndexError.
\<close>

theorem autoComplete_outside_alphabet:
  "build_and_query [''abc''] ''{'' = Some (Inl IndexError)"
  by code_simp

text \<open>
  Claim C4, amended. A trie is built from a list of lowercase sentences, the prompt
  consists of lowercase letters, is not empty and is a prefix of no inserted sentence.
  Then the path of the prompt is absent from the trie and \<open>autoComplete\<close> returns \<open>None\<close>:
  no fault, no string.
\<close>

theorem autoComplete_no_match:
  assumes "CatsTrie ss = Inr tr" and "lower_all ss" and "\<forall>c\<in>set prompt. lowercase c"
    and "prompt \<noteq> []" and "\<forall>s\<in>set ss. \<not> prefix prompt s"
  shows "addr (heap tr) (root tr) (map slot prompt) = None
           \<and> autoComplete tr prompt = Some (Inr None)"
proof -
  note i = CatsTrie_invD(1) [OF assms(1,2)]
  note sh = good_shape [OF inv_good [OF i]]
  have "\<not> (\<exists>s\<in>set ss. prefix (map slot prompt) (enc s))"
  proof
    assume "\<exists>s\<in>set ss. prefix (map slot prompt) (enc s)"
    then obtain s where s: "s \<in> set ss" "prefix (map slot prompt) (enc s)" by blast
    with assms(2) have "\<forall>c\<in>set s. lowercase c" by (simp add: lower_all_def)
    from prefix_map_slot [OF assms(3) this] s(2) have "prefix prompt s" by simp
    with assms(5) s(1) show False by blast
  qed
  with inv_paths [OF i, of "map slot prompt"] assms(4)
  have a: "addr (heap tr) (root tr) (map slot prompt) = None" by simp
  have "walk_prompt (heap tr) prompt (root tr) = Inr None"
    using walk_prompt_addr [of "heap tr" prompt "root tr"] shape_len [OF sh] assms(3) a by simp
  then have "autoComplete tr prompt = Some (Inr None)" by (simp add: autoComplete_def)
  with a show ?thesis by simp
qed

theorem autoComplete_no_match_witness:
  "\<exists>tr. CatsTrie [''abc'', ''abd''] = Inr tr
     \<and> lower_all [''abc'', ''abd'']
     \<and> \<not> (\<exists>c\<in>set ''abx''. \<not> lowercase c)
     \<and> ''abx'' \<noteq> []
     \<and> \<not> (\<exists>s\<in>set [''abc'', ''abd'']. prefix ''abx'' s)
     \<and> addr (heap tr) (root tr) (map slot ''abx'') = None
     \<and> autoComplete tr ''abx'' = Some (Inr None)"
proof -
  let ?L = "[''abc'', ''abd'']"
  have la: "lower_all ?L" by code_simp
  from CatsTrie_inv [OF la] obtain tr where tr: "CatsTrie ?L = Inr tr" by blast
  have lp: "\<forall>c\<in>set ''abx''. lowercase c" by code_simp
  have ne: "''abx'' \<noteq> []" by simp
  have np: "\<forall>s\<in>set ?L. \<not> prefix ''abx'' s" by simp
  note c = autoComplete_no_match [OF tr la lp ne np]
  have lp': "\<not> (\<exists>c\<in>set ''abx''. \<not> lowercase c)" using lp by simp
  have np': "\<not> (\<exists>s\<in>set ?L. prefix ''abx'' s)" by simp
  show ?thesis
    by (intro exI [of _ tr] conjI tr la lp' ne np' c [THEN conjunct1] c [THEN conjunct2])
qed

section \<open>The cached best child of every node\<close>

text \<open>
  Claim C2. The state is the one right after an insertion: a trie built from lowercase
  sentences, into which one more lowercase sentence has just been inserted. \<open>N\<close> is any
  node reachable from the root that is not a terminal node. Then \<open>best_child\<close> of \<open>N\<close>
  is one of the children of \<open>N\<close>; following \<open>best_child\<close> from \<open>N\<close> a positive number of
  times reaches a terminal node \<open>T\<close> below \<open>N\<close>; \<open>word_freq\<close> of \<open>N\<close> equals \<open>word_freq\<close> of
  \<open>T\<close>; and every terminal node below \<open>N\<close> has either a smaller \<open>word_freq\<close> than \<open>T\<close>, or
  the same and a sentence that is lexicographically greater or equal.
\<close>

theorem best_child_invariant:
  assumes "CatsTrie ss = Inr tr" and "lower_all (ss @ [s])"
    and "insert_iterative tr s = Inr tr'"
    and "addr (heap tr') (root tr') p = Some N" and "char (heap tr' N) \<noteq> CHR ''$''"
  shows "\<exists>j b n T t. j < 27 \<and> links (heap tr' N) ! j = Some b \<and> best_child (heap tr' N) = Some b
           \<and> 0 < n \<and> nth_best (heap tr') n N = Some T \<and> char (heap tr' T) = CHR ''$''
           \<and> (\<exists>q. addr (heap tr') N q = Some T)
           \<and> word (heap tr' T) = Some t
           \<and> word_freq (heap tr' N) = word_freq (heap tr' T)
           \<and> (\<forall>q T'. addr (heap tr') N q = Some T' \<longrightarrow> char (heap tr' T') = CHR ''$'' \<longrightarrow>
                (\<exists>t'. word (heap tr' T') = Some t'
                   \<and> (word_freq (heap tr' T') < word_freq (heap tr' T)
                      \<or> (word_freq (heap tr' T') = word_freq (heap tr' T) \<and> t \<le> t'))))"
proof -
  have "CatsTrie (ss @ [s]) = Inr tr'" using assms(1,3) by (simp add: CatsTrie_snoc)
  from CatsTrie_invD(1) [OF this assms(2)] have i: "inv (ss @ [s]) tr'" .
  have ne: "ss @ [s] \<noteq> []" by simp
  from inv_node_best [OF i assms(2) ne assms(4,5)] show ?thesis .
qed

theorem best_child_invariant_witness:
  "\<exists>tr tr'. CatsTrie [''ab''] = Inr tr \<and> lower_all ([''ab''] @ [''a''])
     \<and> insert_iterative tr ''a'' = Inr tr'
     \<and> addr (heap tr') (root tr') (map slot ''a'') = Some 1
     \<and> char (heap tr' 1) \<noteq> CHR ''$''
     \<and> (\<exists>j b n T t. j < 27 \<and> links (heap tr' 1) ! j = Some b \<and> best_child (heap tr' 1) = Some b
           \<and> 0 < n \<and> nth_best (heap tr') n 1 = Some T \<and> char (heap tr' T) = CHR ''$''
           \<and> (\<exists>q. addr (heap tr') 1 q = Some T)
           \<and> word (heap tr' T) = Some t
           \<and> word_freq (heap tr' 1) = word_freq (heap tr' T)
           \<and> (\<forall>q T'. addr (heap tr') 1 q = Some T' \<longrightarrow> char (heap tr' T') = CHR ''$'' \<longrightarrow>
                (\<exists>t'. word (heap tr' T') = Some t'
                   \<and> (word_freq (heap tr' T') < word_freq (heap tr' T)
                      \<or> (word_freq (heap tr' T') = word_freq (heap tr' T) \<and> t \<le> t')))))"
proof -
  have l1: "lower_all [''ab'']" by code_simp
  have l2: "lower_all ([''ab''] @ [''a''])" by code_simp
  from CatsTrie_inv [OF l1] obtain tr where tr: "CatsTrie [''ab''] = Inr tr" by blast
  from CatsTrie_inv [OF l2] obtain tr' where tr': "CatsTrie ([''ab''] @ [''a'']) = Inr tr'"
    by blast
  have ins: "insert_iterative tr ''a'' = Inr tr'"
    using CatsTrie_snoc [of "[''ab'']" "''a''"] tr tr' by simp
  have "(case CatsTrie ([''ab''] @ [''a'']) of
           Inl e \<Rightarrow> False
         | Inr t \<Rightarrow> addr (heap t) (root t) (map slot ''a'') = Some 1
                     \<and> char (heap t 1) \<noteq> CHR ''$'')"
    by code_simp
  with tr' have a: "addr (heap tr') (root tr') (map slot ''a'') = Some 1"
    and c: "char (heap tr' 1) \<noteq> CHR ''$''" by simp_all
  note r = best_child_invariant [OF tr l2 ins a c]
  show ?thesis by (intro exI [of _ tr] exI [of _ tr'] conjI tr l2 ins a c r)
qed

section \<open>The query terminates\<close>

text \<open>
  Claim C5, as the specification states it, fails. On the trie built from no sentence
  the empty prompt ends the prompt loop at the root, whose \<open>best_child\<close> is \<open>None\<close>, and
  \<open>current.char\<close> raises AttributeError. The same fault occurs when the prompt walks
  into a terminal node: the character \<open>`\<close> has index 0, the link of the terminal marker,
  and a terminal node has no \<open>best_child\<close>.
\<close>

theorem autoComplete_no_best_child:
  "build_and_query [] [] = Some (Inl AttributeError)
     \<and> build_and_query [''a''] ''a`'' = Some (Inl AttributeError)"
  by code_simp

text \<open>
  Claim C5, amended. A trie is built from a non-empty list of lowercase sentences, the
  prompt consists of lowercase letters and the prompt loop ends at a node \<open>N\<close>. Then
  following \<open>best_child\<close> from \<open>N\<close> reaches a terminal node after a positive, finite
  number of steps, and \<open>autoComplete\<close> returns: its result is an inserted sentence that
  starts with the prompt.
\<close>

theorem autoComplete_terminates:
  assumes "CatsTrie ss = Inr tr" and "lower_all ss" and "ss \<noteq> []"
    and "\<forall>c\<in>set prompt. lowercase c"
    and "walk_prompt (heap tr) prompt (root tr) = Inr (Some N)"
  shows "\<exists>n T t. 0 < n \<and> nth_best (heap tr) n N = Some T \<and> char (heap tr T) = CHR ''$''
           \<and> autoComplete tr prompt = Some (Inr (Some t)) \<and> t \<in> set ss \<and> prefix prompt t"
proof -
  let ?h = "heap tr" and ?r = "root tr" and ?p = "map slot prompt"
  note i = CatsTrie_invD(1) [OF assms(1,2)]
  note g = inv_good [OF i]
  note sh = good_shape [OF g]
  have z: "0 \<notin> set ?p" by (rule slot_zero_free [OF assms(4)])
  have a: "addr ?h ?r ?p = Some N"
    using walk_prompt_addr [of ?h prompt ?r] shape_len [OF sh] assms(4,5) by simp
  from assms(3) have ne: "?p \<noteq> [] \<or> ss \<noteq> []" by simp
  from best_chain [OF i assms(2) a ne refl]
  obtain t n T where W: "t \<in> set ss \<and> prefix ?p (enc t) \<and> nth_best ?h n N = Some T
        \<and> (0 \<notin> set ?p \<longrightarrow> 0 < n)
        \<and> addr ?h ?r (enc t) = Some T
        \<and> follow_best ?h (Some N) = Some (Inr (Some t))
        \<and> word_freq (?h N) = int (count_list ss t)
        \<and> (\<forall>u\<in>set ss. prefix ?p (enc u) \<longrightarrow> better ss t u)
        \<and> (0 \<notin> set ?p \<longrightarrow> (\<exists>j<27. \<exists>b. links (?h N) ! j = Some b
               \<and> best_child (?h N) = Some b \<and> prefix (?p @ [j]) (enc t)))"
    by (elim exE)
  from W z have t: "t \<in> set ss" "prefix ?p (enc t)"
    and nb: "nth_best ?h n N = Some T" "0 < n"
    and aT: "addr ?h ?r (enc t) = Some T"
    and fb: "follow_best ?h (Some N) = Some (Inr (Some t))"
    by blast+
  from assms(2) t(1) have lt: "\<forall>c\<in>set t. lowercase c" by (simp add: lower_all_def)
  from t(2) have pt: "prefix prompt t" by (simp add: prefix_map_slot [OF assms(4) lt])
  from aT have "addr ?h ?r (map slot t @ [0]) = Some T" by (simp add: enc_def)
  from good_terminal [OF g this] have cT: "char (?h T) = CHR ''$''" by simp
  from good_internal [OF g a z] have "char (?h N) \<noteq> CHR ''$''" by simp
  then have "follow_best ?h (best_child (?h N)) = Some (Inr (Some t))"
    using follow_best_internal [of ?h N] fb by simp
  with assms(5) have ac: "autoComplete tr prompt = Some (Inr (Some t))"
    by (simp add: autoComplete_def)
  from nb cT ac t(1) pt show ?thesis by blast
qed

theorem autoComplete_terminates_witness:
  "\<exists>tr. CatsTrie [''ab'', ''a''] = Inr tr \<and> lower_all [''ab'', ''a'']
     \<and> [''ab'', ''a''] \<noteq> []
     \<and> \<not> (\<exists>c\<in>set ''a''. \<not> lowercase c)
     \<and> walk_prompt (heap tr) ''a'' (root tr) = Inr (Some 1)
     \<and> (\<exists>n T t. 0 < n \<and> nth_best (heap tr) n 1 = Some T \<and> char (heap tr T) = CHR ''$''
           \<and> autoComplete tr ''a'' = Some (Inr (Some t)) \<and> t \<in> set [''ab'', ''a'']
           \<and> prefix ''a'' t)"
proof -
  let ?L = "[''ab'', ''a'']"
  have la: "lower_all ?L" by code_simp
  from CatsTrie_inv [OF la] obtain tr where tr: "CatsTrie ?L = Inr tr" by blast
  have ne: "?L \<noteq> []" by simp
  have lp: "\<forall>c\<in>set ''a''. lowercase c" by code_simp
  have lp': "\<not> (\<exists>c\<in>set ''a''. \<not> lowercase c)" using lp by simp
  have "(case CatsTrie ?L of
           Inl e \<Rightarrow> False
         | Inr t \<Rightarrow> walk_prompt (heap t) ''a'' (root t) = Inr (Some 1))"
    by code_simp
  with tr have w: "walk_prompt (heap tr) ''a'' (root tr) = Inr (Some 1)" by simp
  note r = autoComplete_terminates [OF tr la ne lp w]
  show ?thesis by (intro exI [of _ tr] conjI tr la ne lp' w r)
qed

lemma cmp_step_tie:
  assumes "best_child (h (P ! i)) = Some bc" and "lowercase (char (h bc))"
    and "char (h (P ! (i + 1))) = CHR ''$''" and "f = word_freq (h bc)"
  shows "cmp_step P f i h = Inr (h(P ! i := (h (P ! i))\<lparr>best_child := Some (P ! (i + 1))\<rparr>))"
  using assms dollar_less [of "char (h bc)"] by (simp add: cmp_step_def Let_def)

lemma strict_prefix_less: "strict_prefix s t \<Longrightarrow> s < (t :: 'a :: linorder list)"
proof -
  assume "strict_prefix s t"
  then obtain z where "t = s @ z" "z \<noteq> []" by (auto simp: strict_prefix_def prefix_def)
  then obtain b z' where "t = s @ b # z'" by (cases z) auto
  then show "s < t" by (simp add: List_Lexorder.list_less_def lexord_append_rightI)
qed

lemma prefix_sentence_wins:
  assumes c: "CatsTrie ss = Inr tr" and la: "lower_all ss" and s: "s \<in> set ss"
    and t: "t \<in> set ss" and sp: "strict_prefix s t" and ps: "prefix prompt s"
    and eq: "count_list ss s = count_list ss t"
  shows "autoComplete tr prompt \<noteq> Some (Inr (Some t))
     \<and> ((\<forall>u\<in>set ss. prefix prompt u \<longrightarrow> u = s \<or> u = t \<or> count_list ss u < count_list ss s)
          \<longrightarrow> autoComplete tr prompt = Some (Inr (Some s)))"
proof -
  note i = CatsTrie_invD(1) [OF c la]
  from autoComplete_opt [OF i la s ps]
  obtain r where r: "r \<in> set ss" "prefix prompt r"
      "autoComplete tr prompt = Some (Inr (Some r))"
      "\<forall>u\<in>set ss. prefix prompt u \<longrightarrow>
         count_list ss u < count_list ss r \<or> (count_list ss u = count_list ss r \<and> r \<le> u)"
    by blast
  from r(4) s ps
  have rs: "count_list ss s < count_list ss r \<or> (count_list ss s = count_list ss r \<and> r \<le> s)"
    by blast
  have st: "s < t" by (rule strict_prefix_less [OF sp])
  have nt: "r \<noteq> t"
  proof
    assume "r = t"
    with rs eq have "t \<le> s" by simp
    with st show False by simp
  qed
  have pos: "(\<forall>u\<in>set ss. prefix prompt u \<longrightarrow> u = s \<or> u = t \<or> count_list ss u < count_list ss s)
          \<longrightarrow> r = s"
  proof
    assume "\<forall>u\<in>set ss. prefix prompt u \<longrightarrow> u = s \<or> u = t \<or> count_list ss u < count_list ss s"
    with r(1,2) have "r = s \<or> r = t \<or> count_list ss r < count_list ss s" by blast
    with nt rs show "r = s" by auto
  qed
  from nt pos r(3) show ?thesis by simp
qed

section \<open>The terminal marker wins ties\<close>

text \<open>
  Claim C10. The character \<open>$\<close> is smaller than every lowercase letter. So a round of
  the comparison loop whose new child is a terminal node, whose current best child is
  a letter node and whose inserted frequency equals that of the current best child
  makes the terminal node the best child. And in a trie built from lowercase sentences,
  for two inserted sentences with the same number of occurrences, one a proper prefix
  of the other and both starting with the prompt, \<open>autoComplete\<close> does not return the
  longer one; it returns the shorter one when every other sentence starting with the
  prompt occurs less often.
\<close>

theorem terminal_wins_ties:
  "(\<forall>c. lowercase c \<longrightarrow> CHR ''$'' < c)
   \<and> (\<forall>P f i (h :: nat \<Rightarrow> node) bc.
         best_child (h (P ! i)) = Some bc \<and> lowercase (char (h bc))
           \<and> char (h (P ! (i + 1))) = CHR ''$'' \<and> f = word_freq (h bc) \<longrightarrow>
         cmp_step P f i h = Inr (h(P ! i := (h (P ! i))\<lparr>best_child := Some (P ! (i + 1))\<rparr>)))
   \<and> (\<forall>ss tr s t prompt.
         CatsTrie ss = Inr tr \<and> lower_all ss \<and> s \<in> set ss \<and> t \<in> set ss
           \<and> strict_prefix s t \<and> prefix prompt s \<and> count_list ss s = count_list ss t \<longrightarrow>
         autoComplete tr prompt \<noteq> Some (Inr (Some t))
         \<and> ((\<forall>u\<in>set ss. prefix prompt u \<longrightarrow>
                u = s \<or> u = t \<or> count_list ss u < count_list ss s)
              \<longrightarrow> autoComplete tr prompt = Some (Inr (Some s))))"
proof (intro conjI allI impI)
  fix c assume "lowercase c"
  then show "CHR ''$'' < c" by (rule dollar_less)
next
  fix P f i and h :: "nat \<Rightarrow> node" and bc
  assume "best_child (h (P ! i)) = Some bc \<and> lowercase (char (h bc))
           \<and> char (h (P ! (i + 1))) = CHR ''$'' \<and> f = word_freq (h bc)"
  then show "cmp_step P f i h
      = Inr (h(P ! i := (h (P ! i))\<lparr>best_child := Some (P ! (i + 1))\<rparr>))"
    using cmp_step_tie [of h P i bc f] by blast
next
  fix ss tr s t prompt
  assume a: "CatsTrie ss = Inr tr \<and> lower_all ss \<and> s \<in> set ss \<and> t \<in> set ss
           \<and> strict_prefix s t \<and> prefix prompt s \<and> count_list ss s = count_list ss t"
  then have "autoComplete tr prompt \<noteq> Some (Inr (Some t))
     \<and> ((\<forall>u\<in>set ss. prefix prompt u \<longrightarrow> u = s \<or> u = t \<or> count_list ss u < count_list ss s)
          \<longrightarrow> autoComplete tr prompt = Some (Inr (Some s)))"
    using prefix_sentence_wins [of ss tr s t prompt] by blast
  then show "autoComplete tr prompt \<noteq> Some (Inr (Some t))" 
    and "\<forall>u\<in>set ss. prefix prompt u \<longrightarrow> u = s \<or> u = t \<or> count_list ss u < count_list ss s
         \<Longrightarrow> autoComplete tr prompt = Some (Inr (Some s))"
    by blast+
qed

theorem terminal_wins_ties_witness:
  "lowercase (CHR ''b'') \<and> CHR ''$'' < CHR ''b''
   \<and> (\<exists>h :: nat \<Rightarrow> node. h = (\<lambda>_. Node (CHR ''R''))
                (0 := (Node (CHR ''a''))\<lparr>best_child := Some 1\<rparr>,
                 1 := (Node (CHR ''b''))\<lparr>word_freq := 1\<rparr>,
                 2 := (Node (CHR ''$''))\<lparr>word_freq := 1\<rparr>)
         \<and> best_child (h ([0, 2] ! 0)) = Some 1 \<and> lowercase (char (h 1))
         \<and> char (h ([0, 2] ! (0 + 1))) = CHR ''$'' \<and> 1 = word_freq (h 1)
         \<and> cmp_step [0, 2] 1 0 h
             = Inr (h([0, 2] ! 0 := (h ([0, 2] ! 0))\<lparr>best_child := Some ([0, 2] ! (0 + 1))\<rparr>)))
   \<and> (\<exists>tr. CatsTrie [''ab'', ''a''] = Inr tr \<and> lower_all [''ab'', ''a'']
         \<and> ''a'' \<in> set [''ab'', ''a''] \<and> ''ab'' \<in> set [''ab'', ''a'']
         \<and> strict_prefix ''a'' ''ab'' \<and> prefix ''a'' ''a''
         \<and> count_list [''ab'', ''a''] ''a'' = count_list [''ab'', ''a''] ''ab''
         \<and> autoComplete tr ''a'' \<noteq> Some (Inr (Some ''ab''))
         \<and> autoComplete tr ''a'' = Some (Inr (Some ''a'')))"
proof -
  note T1 = terminal_wins_ties [THEN conjunct1, rule_format]
  note T2 = terminal_wins_ties [THEN conjunct2, THEN conjunct1, rule_format]
  note T3 = terminal_wins_ties [THEN conjunct2, THEN conjunct2, rule_format]
  have lb: "lowercase (CHR ''b'')" by code_simp
  note c1 = T1 [OF lb]
  define h :: "nat \<Rightarrow> node" where "h = (\<lambda>_. Node (CHR ''R''))
                (0 := (Node (CHR ''a''))\<lparr>best_child := Some 1\<rparr>,
                 1 := (Node (CHR ''b''))\<lparr>word_freq := 1\<rparr>,
                 2 := (Node (CHR ''$''))\<lparr>word_freq := (1::int)\<rparr>)"
  have h2: "best_child (h ([0, 2] ! 0)) = Some 1 \<and> lowercase (char (h 1))
         \<and> char (h ([0, 2] ! (0 + 1))) = CHR ''$'' \<and> 1 = word_freq (h 1)"
    using lb by (simp add: h_def)
  note c2 = T2 [OF h2]
  have p2: "\<exists>h. h = (\<lambda>_. Node (CHR ''R''))
                (0 := (Node (CHR ''a''))\<lparr>best_child := Some 1\<rparr>,
                 1 := (Node (CHR ''b''))\<lparr>word_freq := 1\<rparr>,
                 2 := (Node (CHR ''$''))\<lparr>word_freq := 1\<rparr>)
         \<and> best_child (h ([0, 2] ! 0)) = Some 1 \<and> lowercase (char (h 1))
         \<and> char (h ([0, 2] ! (0 + 1))) = CHR ''$'' \<and> 1 = word_freq (h 1)
         \<and> cmp_step [0, 2] 1 0 h
             = Inr (h([0, 2] ! 0 := (h ([0, 2] ! 0))\<lparr>best_child := Some ([0, 2] ! (0 + 1))\<rparr>))"
    by (rule exI [of _ h]) (intro conjI h_def h2 [THEN conjunct1]
        h2 [THEN conjunct2, THEN conjunct1] h2 [THEN conjunct2, THEN conjunct2, THEN conjunct1]
        h2 [THEN conjunct2, THEN conjunct2, THEN conjunct2] c2)
  let ?L = "[''ab'', ''a'']"
  have la: "lower_all ?L" by code_simp
  from CatsTrie_inv [OF la] obtain tr where tr: "CatsTrie ?L = Inr tr" by blast
  have m1: "''a'' \<in> set ?L" and m2: "''ab'' \<in> set ?L" by simp_all
  have sp: "strict_prefix ''a'' ''ab''" by (simp add: strict_prefix_def)
  have ps: "prefix ''a'' ''a''" by simp
  have eq: "count_list ?L ''a'' = count_list ?L ''ab''" by simp
  have h3: "CatsTrie ?L = Inr tr \<and> lower_all ?L \<and> ''a'' \<in> set ?L \<and> ''ab'' \<in> set ?L
           \<and> strict_prefix ''a'' ''ab'' \<and> prefix ''a'' ''a''
           \<and> count_list ?L ''a'' = count_list ?L ''ab''"
    by (intro conjI tr la m1 m2 sp ps eq)
  note c3 = T3 [OF h3]
  have only: "\<forall>u\<in>set ?L. prefix ''a'' u \<longrightarrow>
                u = ''a'' \<or> u = ''ab'' \<or> count_list ?L u < count_list ?L ''a''"
    by simp
  note c3a = c3 [THEN conjunct1]
  note c3b = c3 [THEN conjunct2, THEN mp, OF only]
  have p3: "\<exists>tr. CatsTrie ?L = Inr tr \<and> lower_all ?L
         \<and> ''a'' \<in> set ?L \<and> ''ab'' \<in> set ?L
         \<and> strict_prefix ''a'' ''ab'' \<and> prefix ''a'' ''a''
         \<and> count_list ?L ''a'' = count_list ?L ''ab''
         \<and> autoComplete tr ''a'' \<noteq> Some (Inr (Some ''ab''))
         \<and> autoComplete tr ''a'' = Some (Inr (Some ''a''))"
    by (intro exI [of _ tr] conjI tr la m1 m2 sp ps eq c3a c3b)
  show ?thesis by (intro conjI lb c1 p2 p3)
qed

lemma consecutive_pairs_map:
  "map (\<lambda>i. (P ! i, P ! (i + 1))) [0 ..< length P - 1] = consecutive_pairs P"
  by (rule nth_equalityI) (auto simp: consecutive_pairs_def nth_tl)

lemma init_step_pair: "init_step P i h = spec_init_pair (last P) (P ! i, P ! (i + 1)) h"
  by (auto simp: init_step_def spec_init_pair_def Let_def)

lemma init_fold_pairs:
  "fold (init_step P) [0 ..< length P - 1] h
     = fold (spec_init_pair (last P)) (consecutive_pairs P) h"
proof -
  have "init_step P = spec_init_pair (last P) \<circ> (\<lambda>i. (P ! i, P ! (i + 1)))"
    by (intro ext) (simp add: init_step_pair)
  then have "fold (init_step P) [0 ..< length P - 1] h
     = fold (spec_init_pair (last P)) (map (\<lambda>i. (P ! i, P ! (i + 1))) [0 ..< length P - 1]) h"
    by (simp add: fold_map)
  then show ?thesis by (simp only: consecutive_pairs_map)
qed

lemma cmp_step_pair:
  "cmp_step P f i h =
     (case spec_compare_pair f (P ! i, P ! (i + 1)) h of
        None \<Rightarrow> Inl AttributeError | Some h' \<Rightarrow> Inr h')"
  by (simp add: cmp_step_def spec_compare_pair_def Let_def split: option.splits)

lemma cmp_for_each_pairs:
  "for_each (cmp_step P f) ns h =
     (case spec_compare_pass f (map (\<lambda>i. (P ! i, P ! (i + 1))) ns) h of
        None \<Rightarrow> Inl AttributeError | Some h' \<Rightarrow> Inr h')"
  by (induction ns arbitrary: h) (auto simp: cmp_step_pair split: option.splits)

lemma spec_init_pair_keeps:
  "best_child (h x) \<noteq> None \<Longrightarrow> best_child (spec_init_pair T pr h x) \<noteq> None"
  by (cases pr) (simp add: spec_init_pair_def)

lemma spec_init_pair_sets: "best_child (spec_init_pair T pr h (fst pr)) \<noteq> None"
  by (cases pr) (simp add: spec_init_pair_def)

lemma spec_init_fold_keeps:
  "best_child (h x) \<noteq> None \<Longrightarrow> best_child (fold (spec_init_pair T) prs h x) \<noteq> None"
proof (induction prs arbitrary: h)
  case Nil
  then show ?case by simp
next
  case (Cons q prs)
  from spec_init_pair_keeps [of h x T q] Cons.prems
  have "best_child (spec_init_pair T q h x) \<noteq> None" by simp
  with Cons.IH [of "spec_init_pair T q h"] show ?case by simp
qed

lemma spec_init_fold_sets:
  "pr \<in> set prs \<Longrightarrow> best_child (fold (spec_init_pair T) prs h (fst pr)) \<noteq> None"
proof (induction prs arbitrary: h)
  case Nil
  then show ?case by simp
next
  case (Cons q prs)
  show ?case
  proof (cases "pr = q")
    case True
    then show ?thesis by (simp add: spec_init_fold_keeps spec_init_pair_sets)
  next
    case False
    with Cons show ?thesis by simp
  qed
qed

lemma spec_compare_pair_keeps:
  "spec_compare_pair f pr h = Some h' \<Longrightarrow> best_child (h x) \<noteq> None \<Longrightarrow> best_child (h' x) \<noteq> None"
  by (cases pr) (auto simp: spec_compare_pair_def split: option.splits if_splits)

lemma spec_compare_pair_runs:
  "best_child (h (fst pr)) \<noteq> None \<Longrightarrow> \<exists>h'. spec_compare_pair f pr h = Some h'"
  by (cases pr) (auto simp: spec_compare_pair_def split: option.splits)

lemma spec_compare_pass_runs:
  "\<forall>pr\<in>set prs. best_child (h (fst pr)) \<noteq> None \<Longrightarrow> \<exists>h'. spec_compare_pass f prs h = Some h'"
proof (induction prs arbitrary: h)
  case Nil
  show ?case by simp
next
  case (Cons q prs)
  then have "best_child (h (fst q)) \<noteq> None" by simp
  with spec_compare_pair_runs [of h q f]
  obtain h1 where h1: "spec_compare_pair f q h = Some h1" by blast
  have "\<forall>pr\<in>set prs. best_child (h1 (fst pr)) \<noteq> None"
    using Cons.prems spec_compare_pair_keeps [OF h1] by simp
  from Cons.IH [OF this] h1 show ?case by simp
qed

lemma update_nodes_spec:
  assumes ntu: "nodes_to_update tr = Some P" and len: "2 \<le> length P"
  shows "\<exists>h'. spec_repair_all_pairs P (heap tr) = Some h'
            \<and> update_nodes tr = Inr (tr\<lparr>heap := h'\<rparr>)"
proof -
  let ?T = "last P" and ?prs = "consecutive_pairs P"
  define h1 where "h1 = fold (spec_init_pair ?T) ?prs (heap tr)"
  define f where "f = word_freq (h1 ?T)"
  have e1: "fold (init_step P) [0 ..< length P - 1] (heap tr) = h1"
    unfolding h1_def by (rule init_fold_pairs)
  have "\<forall>pr\<in>set ?prs. best_child (h1 (fst pr)) \<noteq> None"
    by (simp add: h1_def spec_init_fold_sets)
  from spec_compare_pass_runs [OF this]
  obtain h2 where h2: "spec_compare_pass f ?prs h1 = Some h2" by blast
  have e2: "for_each (cmp_step P f) [0 ..< length P - 1] h1 = Inr h2"
    by (simp only: cmp_for_each_pairs consecutive_pairs_map h2 option.case)
  from len have np: "P \<noteq> []" and nl: "\<not> length P < 2" by auto
  have lb: "length (butlast P) = length P - 1" by simp
  from len have "butlast P \<noteq> []" by (cases P rule: rev_cases) auto
  with lb have "length (butlast P) = length P - 1" and "butlast P \<noteq> []" by simp_all
  then have "last (butlast P) = butlast P ! (length P - 1 - 1)" by (simp add: last_conv_nth)
  also have "\<dots> = P ! (length P - 1 - 1)" using len by (simp add: nth_butlast)
  also have "length P - 1 - 1 = length P - 2" by simp
  finally have par: "P ! (length P - 2) = last (butlast P)" by simp
  have s: "spec_repair_all_pairs P (heap tr) = Some (spec_fixup f (last (butlast P)) h2)"
    unfolding spec_repair_all_pairs_def spec_repair_on_def Let_def
    using h2 by (simp add: h1_def [symmetric] f_def [symmetric])
  have u: "update_nodes tr = Inr (tr\<lparr>heap := spec_fixup f (last (butlast P)) h2\<rparr>)"
    unfolding update_nodes_def
    by (simp only: ntu option.case Let_def e1 np if_False f_def [symmetric] e2 sum.case nl par)
       (simp add: spec_fixup_def)
  from s u show ?thesis by blast
qed

section \<open>The cache repair\<close>

text \<open>
  Claim C3, as the specification states it, fails. The sentence \<open>ab\<close> is in the trie
  and \<open>a\<close> is being inserted: the path is the root, the node of \<open>a\<close> and the new
  terminal node. With the comparison pass stopping before the pair of the node of \<open>a\<close>
  and the terminal node, the node of \<open>a\<close> keeps the node of \<open>b\<close> as its best child;
  \<open>update_nodes\<close> compares that pair too and makes the terminal node the best child.
\<close>

theorem spec_repair_differs:
  "(case CatsTrie [''ab''] of
      Inl e \<Rightarrow> False
    | Inr tr \<Rightarrow>
        (case insert_walk tr ''a'' of
           Inl e \<Rightarrow> False
         | Inr tw \<Rightarrow>
             nodes_to_update tw = Some [0, 1, 4]
             \<and> (case update_nodes tw of
                  Inl e \<Rightarrow> False
                | Inr tu \<Rightarrow> best_child (heap tu 1) = Some 4)
             \<and> (case spec_repair [0, 1, 4] (heap tw) of
                  None \<Rightarrow> False
                | Some h \<Rightarrow> best_child (h 1) = Some 2)))"
  by code_simp

text \<open>
  Claim C3, amended. The comparison pass processes every consecutive pair of the path,
  the pair of the parent of the terminal node and the terminal node included; then the
  parent of the terminal node has its occurrence count raised to \<open>f\<close> when \<open>f\<close> is
  strictly greater. On every path of at least two nodes this repair runs without a
  fault and yields the state that \<open>update_nodes\<close> yields.
\<close>

theorem update_nodes_refines_spec:
  assumes "nodes_to_update tr = Some P" and "2 \<le> length P"
  shows "\<exists>h'. spec_repair_all_pairs P (heap tr) = Some h'
            \<and> update_nodes tr = Inr (tr\<lparr>heap := h'\<rparr>)"
  using assms by (rule update_nodes_spec)

theorem update_nodes_refines_spec_witness:
  "\<exists>tr tw. CatsTrie [''ab''] = Inr tr \<and> insert_walk tr ''a'' = Inr tw
     \<and> nodes_to_update tw = Some [0, 1, 4] \<and> 2 \<le> length [0 :: nat, 1, 4]
     \<and> (\<exists>h'. spec_repair_all_pairs [0, 1, 4] (heap tw) = Some h'
            \<and> update_nodes tw = Inr (tw\<lparr>heap := h'\<rparr>))"
proof -
  have e: "(case CatsTrie [''ab''] of
      Inl e \<Rightarrow> False
    | Inr tr \<Rightarrow>
        (case insert_walk tr ''a'' of
           Inl e \<Rightarrow> False
         | Inr tw \<Rightarrow> nodes_to_update tw = Some [0, 1, 4]))"
    by code_simp
  then obtain tr where tr: "CatsTrie [''ab''] = Inr tr" by (cases "CatsTrie [''ab'']") auto
  with e obtain tw where tw: "insert_walk tr ''a'' = Inr tw"
    by (cases "insert_walk tr ''a''") auto
  with e tr have n: "nodes_to_update tw = Some [0, 1, 4]" by simp
  have l: "2 \<le> length [0 :: nat, 1, 4]" by simp
  note r = update_nodes_refines_spec [OF n l]
  show ?thesis by (intro exI [of _ tr] exI [of _ tw] conjI tr tw n l r)
qed

lemma insert_loop_existing:
  assumes len: "\<forall>a. length (links (h a)) = 27"
  shows "\<forall>c\<in>set cs. lowercase c \<Longrightarrow> addr h cur (map slot cs) = Some x \<Longrightarrow>
     \<exists>Q. insert_loop cs (h, nf, ntu, cur) = Inr (h, nf, ntu @ Q, x)"
proof (induction cs arbitrary: cur ntu)
  case Nil
  then show ?case by simp
next
  case (Cons c cs)
  then have lc: "lowercase c" by simp
  from lowercase_slot [OF lc]
  have pi: "py_index 27 (index_of c) = Some (slot c)" and "slot c \<le> 26" by simp_all
  with Cons.prems(2) len obtain b where b: "links (h cur) ! slot c = Some b"
    and r: "addr h b (map slot cs) = Some x"
    by (auto split: option.splits if_splits)
  have cn: "child_or_new h nf cur (slot c) c = (h, nf, b)"
    using child_or_new_old [of h cur "slot c" b nf c] b by simp
  from Cons.IH [OF _ r, of "ntu @ [cur]"] Cons.prems(1)
  obtain Q where "insert_loop cs (h, nf, ntu @ [cur], b) = Inr (h, nf, (ntu @ [cur]) @ Q, x)"
    by auto
  with pi cn len show ?case by (intro exI [of _ "cur # Q"]) simp
qed

lemma insert_walk_existing:
  assumes len: "\<forall>a. length (links (heap tr a)) = 27" and ls: "\<forall>c\<in>set s. lowercase c"
    and T: "addr (heap tr) (root tr) (enc s) = Some T"
  shows "\<exists>tw P. insert_walk tr s = Inr tw \<and> next_free tw = next_free tr
           \<and> nodes_to_update tw = Some P
           \<and> (\<forall>a. links (heap tw a) = links (heap tr a))"
proof -
  let ?h = "heap tr"
  from T obtain N where N: "addr ?h (root tr) (map slot s) = Some N"
    and NT: "addr ?h N [0] = Some T"
    by (auto simp: enc_def addr_append split: option.splits)
  from NT len have l0: "links (?h N) ! 0 = Some T" by (auto split: option.splits if_splits)
  from insert_loop_existing [OF len ls N, of "next_free tr" "[]"]
  obtain Q where Q: "insert_loop s (?h, next_free tr, [], root tr) = Inr (?h, next_free tr, Q, N)"
    by auto
  have pz: "py_index (length (links (?h N))) 0 = Some 0" using len by (simp add: py_index_def)
  have cn: "child_or_new ?h (next_free tr) N 0 (CHR ''$'') = (?h, next_free tr, T)"
    using child_or_new_old [of ?h N 0 T "next_free tr" "CHR ''$''"] l0 by simp
  show ?thesis
    by (simp add: insert_walk_def Q pz cn Let_def)
qed

section \<open>Inserting a sentence again\<close>

text \<open>
  Claim C7. A trie is built from a list of lowercase sentences and \<open>s\<close> is one of
  them. Inserting \<open>s\<close> again succeeds; the terminal node of \<open>s\<close> has its \<open>word_freq\<close>
  increased by exactly 1 and its \<open>word\<close> is \<open>s\<close> before and after; no node is
  allocated (\<open>next_free\<close> stays); and every node keeps its links, so every path from
  the root leads where it led before.
\<close>

theorem reinsert_present:
  assumes "CatsTrie ss = Inr tr" and "lower_all ss" and "s \<in> set ss"
  shows "\<exists>tr' T. insert_iterative tr s = Inr tr'
           \<and> addr (heap tr) (root tr) (enc s) = Some T
           \<and> word_freq (heap tr' T) = word_freq (heap tr T) + 1
           \<and> word (heap tr T) = Some s \<and> word (heap tr' T) = Some s
           \<and> next_free tr' = next_free tr \<and> root tr' = root tr
           \<and> (\<forall>a. links (heap tr' a) = links (heap tr a))
           \<and> (\<forall>p. addr (heap tr') (root tr') p = addr (heap tr) (root tr) p)"
proof -
  note i = CatsTrie_invD(1) [OF assms(1,2)]
  note sh = good_shape [OF inv_good [OF i]]
  from assms(2,3) have ls: "\<forall>c\<in>set s. lowercase c" by (simp add: lower_all_def)
  from inv_present [OF i assms(2) ls] assms(3)
  obtain T where T: "addr (heap tr) (root tr) (enc s) = Some T" by auto
  have len: "\<forall>a. length (links (heap tr a)) = 27" using shape_len [OF sh] by simp
  from insert_walk_existing [OF len ls T]
  obtain tw P where tw: "insert_walk tr s = Inr tw" "next_free tw = next_free tr"
    "nodes_to_update tw = Some P" "\<forall>a. links (heap tw a) = links (heap tr a)"
    by blast
  from insert_iterative_inv [OF i assms(2) ls]
  obtain tr' where tr': "insert_iterative tr s = Inr tr'" "inv (ss @ [s]) tr'" "root tr' = root tr"
    by blast
  from tr'(1) tw(1) have u: "update_nodes tw = Inr tr'" by (simp add: insert_iterative_def)
  from update_nodes_frame [OF u tw(3)] tw(2,4)
  have nf: "next_free tr' = next_free tr"
    and lk: "\<forall>a. links (heap tr' a) = links (heap tr a)"
    by simp_all
  have ad: "\<forall>p. addr (heap tr') (root tr') p = addr (heap tr) (root tr) p"
    using addr_links_cong [of "heap tr'" "heap tr"] lk tr'(3) by simp
  then have T': "addr (heap tr') (root tr') (enc s) = Some T" using T by simp
  have "s \<in> set (ss @ [s])" by simp
  from inv_terminal [OF tr'(2) this T']
  have a: "word (heap tr' T) = Some s" "word_freq (heap tr' T) = int (count_list (ss @ [s]) s)"
    by simp_all
  from inv_terminal [OF i assms(3) T]
  have b: "word (heap tr T) = Some s" "word_freq (heap tr T) = int (count_list ss s)"
    by simp_all
  from a(2) b(2) have "word_freq (heap tr' T) = word_freq (heap tr T) + 1" by simp
  with tr'(1,3) T a(1) b(1) nf lk ad show ?thesis by blast
qed

theorem reinsert_present_witness:
  "\<exists>tr. CatsTrie [''ab'', ''a''] = Inr tr \<and> lower_all [''ab'', ''a'']
     \<and> ''ab'' \<in> set [''ab'', ''a'']
     \<and> (\<exists>tr' T. insert_iterative tr ''ab'' = Inr tr'
           \<and> addr (heap tr) (root tr) (enc ''ab'') = Some T
           \<and> word_freq (heap tr' T) = word_freq (heap tr T) + 1
           \<and> word (heap tr T) = Some ''ab'' \<and> word (heap tr' T) = Some ''ab''
           \<and> next_free tr' = next_free tr \<and> root tr' = root tr
           \<and> (\<forall>a. links (heap tr' a) = links (heap tr a))
           \<and> (\<forall>p. addr (heap tr') (root tr') p = addr (heap tr) (root tr) p))"
proof -
  let ?L = "[''ab'', ''a'']"
  have la: "lower_all ?L" by code_simp
  from CatsTrie_inv [OF la] obtain tr where tr: "CatsTrie ?L = Inr tr" by blast
  have m: "''ab'' \<in> set ?L" by simp
  note r = reinsert_present [OF tr la m]
  show ?thesis by (intro exI [of _ tr] conjI tr la m r)
qed

section \<open>An insertion touches only its own path\<close>

text \<open>
  Claim C8. A lowercase sentence \<open>s\<close> is inserted into a trie built from lowercase
  sentences. Every node that is not on the path of \<open>s\<close> in the resulting trie is the
  node it was before the insertion: the same character, links, word, \<open>word_freq\<close> and
  \<open>best_child\<close>.
\<close>

theorem insert_frame:
  assumes "CatsTrie ss = Inr tr" and "lower_all (ss @ [s])"
    and "insert_iterative tr s = Inr tr'" and "\<not> on_sentence_path tr' s a"
  shows "heap tr' a = heap tr a"
proof -
  from assms(2) have la: "lower_all ss" and ls: "\<forall>c\<in>set s. lowercase c"
    by (simp_all add: lower_all_def)
  note i = CatsTrie_invD(1) [OF assms(1) la]
  from insert_iterative_inv [OF i la ls] assms(3)
  obtain P where P: "nodes_to_update tr' = Some P" "root tr' = root tr"
    "on_path (heap tr') (next_free tr') (root tr) s P"
    by auto
  from insert_iterative_frame [OF assms(3)] P(1)
  have fr: "\<forall>a. a \<notin> set P \<longrightarrow> heap tr' a = heap tr a" by auto
  have "a \<notin> set P"
  proof
    assume "a \<in> set P"
    then obtain k where k: "k < length P" "P ! k = a" by (auto simp: in_set_conv_nth)
    from P(3) have "length P = length s + 2"
      and "\<forall>i \<le> length s + 1. addr (heap tr') (root tr) (take i (enc s)) = Some (P ! i)"
      by (simp_all add: on_path_def)
    with k have "addr (heap tr') (root tr') (take k (enc s)) = Some a" using P(2) by simp
    moreover have "take k (enc s) \<in> set (prefixes (enc s))"
      by (simp add: in_set_prefixes take_is_prefix)
    ultimately have "on_sentence_path tr' s a" unfolding on_sentence_path_def by blast
    with assms(4) show False by simp
  qed
  with fr show ?thesis by simp
qed

theorem insert_frame_witness:
  "\<exists>tr tr'. CatsTrie [''ab''] = Inr tr \<and> lower_all ([''ab''] @ [''ac''])
     \<and> insert_iterative tr ''ac'' = Inr tr'
     \<and> \<not> on_sentence_path tr' ''ac'' 2
     \<and> heap tr' 2 = heap tr 2"
proof -
  have l1: "lower_all [''ab'']" by code_simp
  have l2: "lower_all ([''ab''] @ [''ac''])" by code_simp
  from CatsTrie_inv [OF l1] obtain tr where tr: "CatsTrie [''ab''] = Inr tr" by blast
  from CatsTrie_inv [OF l2] obtain tr' where tr': "CatsTrie ([''ab''] @ [''ac'']) = Inr tr'"
    by blast
  have ins: "insert_iterative tr ''ac'' = Inr tr'"
    using CatsTrie_snoc [of "[''ab'']" "''ac''"] tr tr' by simp
  have "(case CatsTrie ([''ab''] @ [''ac'']) of
           Inl e \<Rightarrow> False
         | Inr t \<Rightarrow> \<not> on_sentence_path t ''ac'' 2)"
    by code_simp
  with tr' have n: "\<not> on_sentence_path tr' ''ac'' 2" by simp
  note r = insert_frame [OF tr l2 ins n]
  show ?thesis by (intro exI [of _ tr] exI [of _ tr'] conjI tr l2 ins n r)
qed

lemma walk_prompt_st_eq: "walk_prompt_st h cs node = (walk_prompt h cs node, h)"
  by (induction cs arbitrary: node) (simp_all add: load_def split: option.splits)

lemma follow_best_st_complete:
  "follow_best h c = Some y \<Longrightarrow> follow_best_st h c = Some (y, h)"
proof (induction rule: follow_best.raw_induct [rotated 1, consumes 1])
  case (1 follow_best' h c y)
  show ?case
  proof (cases c)
    case None
    with 1(2) show ?thesis by (simp add: follow_best_st.simps)
  next
    case (Some a)
    show ?thesis
    proof (cases "char (h a) = CHR ''$''")
      case True
      with Some 1(2) show ?thesis by (simp add: follow_best_st.simps load_def)
    next
      case False
      with Some 1(2) have "follow_best' h (best_child (h a)) = Some y" by simp
      from 1(1) [OF this] False Some show ?thesis
        by (simp add: follow_best_st.simps [of h "Some a"] load_def)
    qed
  qed
qed

lemma follow_best_st_sound:
  "follow_best_st h c = Some z \<Longrightarrow> snd z = h \<and> follow_best h c = Some (fst z)"
proof (induction rule: follow_best_st.raw_induct [rotated 1, consumes 1])
  case (1 follow_best_st' h c z)
  show ?case
  proof (cases c)
    case None
    with 1(2) show ?thesis by (auto simp: follow_best.simps)
  next
    case (Some a)
    show ?thesis
    proof (cases "char (h a) = CHR ''$''")
      case True
      with Some 1(2) show ?thesis by (auto simp: follow_best.simps load_def)
    next
      case False
      with Some 1(2) have "follow_best_st' h (best_child (h a)) = Some z"
        by (simp add: load_def)
      from 1(1) [OF this] False Some show ?thesis
        by (simp add: follow_best.simps [of h "Some a"])
    qed
  qed
qed

lemma follow_best_st_eq:
  "follow_best_st h c = map_option (\<lambda>r. (r, h)) (follow_best h c)"
proof (cases "follow_best h c")
  case None
  show ?thesis
  proof (cases "follow_best_st h c")
    case n: None
    with None show ?thesis by simp
  next
    case (Some z)
    from follow_best_st_sound [OF this] None show ?thesis by simp
  qed
next
  case (Some y)
  from follow_best_st_complete [OF this] Some show ?thesis by simp
qed

lemma autoComplete_st_eq:
  "autoComplete_st tr prompt = map_option (\<lambda>r. (r, tr)) (autoComplete tr prompt)"
  by (cases "follow_best (heap tr) (best_child (heap tr (the (projr (walk_prompt (heap tr) prompt (root tr))))))")
     (auto simp: autoComplete_st_def autoComplete_def walk_prompt_st_eq load_def
        follow_best_st_eq split: sum.splits option.splits)

lemma queries_eq:
  "queries tr ps = map_option (\<lambda>rs. (rs, tr)) (those (map (autoComplete tr) ps))"
  by (induction ps) (auto simp: autoComplete_st_eq split: option.splits)

section \<open>Queries leave the trie as it is\<close>

text \<open>
  Claim C9. Whenever a call of \<open>autoComplete\<close> returns, the trie it leaves is the trie
  it was given, every field of every node included, and its result is the one the
  query function computes. After any list of queries the trie is still the trie
  before them, so a further query behaves as it would have at the start, and each
  query of the list got the answer the first trie gives.
\<close>

theorem autoComplete_read_only:
  "(\<forall>r tr'. autoComplete_st tr prompt = Some (r, tr') \<longrightarrow> tr' = tr)
   \<and> autoComplete_st tr prompt = map_option (\<lambda>r. (r, tr)) (autoComplete tr prompt)
   \<and> (\<forall>rs tr'. queries tr prompts = Some (rs, tr') \<longrightarrow>
         tr' = tr \<and> autoComplete_st tr' prompt = autoComplete_st tr prompt)
   \<and> queries tr prompts = map_option (\<lambda>rs. (rs, tr)) (those (map (autoComplete tr) prompts))"
  by (auto simp: autoComplete_st_eq queries_eq)

theorem autoComplete_read_only_witness:
  "\<exists>tr r tr' rs tr''. CatsTrie [''ab''] = Inr tr
     \<and> autoComplete_st tr ''a'' = Some (r, tr') \<and> r = Inr (Some ''ab'') \<and> tr' = tr
     \<and> queries tr [''a'', ''x''] = Some (rs, tr'') \<and> rs = [Inr (Some ''ab''), Inr None]
     \<and> tr'' = tr \<and> autoComplete_st tr'' ''a'' = autoComplete_st tr ''a''"
proof -
  have e: "(case CatsTrie [''ab''] of
      Inl e \<Rightarrow> False
    | Inr t \<Rightarrow>
        (case autoComplete_st t ''a'' of
           None \<Rightarrow> False
         | Some (r, t') \<Rightarrow> r = Inr (Some ''ab''))
        \<and> (case queries t [''a'', ''x''] of
             None \<Rightarrow> False
           | Some (rs, t') \<Rightarrow> rs = [Inr (Some ''ab''), Inr None]))"
    by code_simp
  then obtain tr where tr: "CatsTrie [''ab''] = Inr tr" by (cases "CatsTrie [''ab'']") auto
  with e obtain r tr' where a: "autoComplete_st tr ''a'' = Some (r, tr')"
    and r: "r = Inr (Some ''ab'')"
    by (cases "autoComplete_st tr ''a''") auto
  from e tr obtain rs tr'' where q: "queries tr [''a'', ''x''] = Some (rs, tr'')"
    and rs: "rs = [Inr (Some ''ab''), Inr None]"
    by (cases "queries tr [''a'', ''x'']") auto
  note T = autoComplete_read_only [of tr "''a''" "[''a'', ''x'']"]
  note c1 = T [THEN conjunct1, rule_format, OF a]
  note c3 = T [THEN conjunct2, THEN conjunct2, THEN conjunct1, rule_format, OF q]
  show ?thesis
    by (intro exI [of _ tr] exI [of _ r] exI [of _ tr'] exI [of _ rs] exI [of _ tr''] conjI
        tr a r c1 q rs c3 [THEN conjunct1] c3 [THEN conjunct2])
qed

section \<open>The order of the insertions\<close>

text \<open>
  Claim C6. Two lists of lowercase sentences are permutations of each other. Then
  both tries are built, the same paths of link indices exist in both, and the two
  nodes that one path leads to (their addresses depend on the order of the
  insertions) have the same \<open>word_freq\<close> and the same best child: \<open>best_child\<close> is the
  child behind link \<open>j\<close> in one trie exactly when it is in the other. And
  \<open>autoComplete\<close> gives the same result, or the same fault, for every prompt.
\<close>

theorem insertion_order_independent:
  assumes "mset ss1 = mset ss2" and "lower_all ss1"
  shows "\<exists>t1 t2. CatsTrie ss1 = Inr t1 \<and> CatsTrie ss2 = Inr t2
     \<and> (\<forall>p. addr (heap t1) (root t1) p = None \<longleftrightarrow> addr (heap t2) (root t2) p = None)
     \<and> (\<forall>p a1 a2. addr (heap t1) (root t1) p = Some a1 \<and> addr (heap t2) (root t2) p = Some a2 \<longrightarrow>
           word_freq (heap t1 a1) = word_freq (heap t2 a2)
           \<and> (\<forall>j<27. (best_child (heap t1 a1) \<noteq> None
                        \<and> links (heap t1 a1) ! j = best_child (heap t1 a1))
                  \<longleftrightarrow> (best_child (heap t2 a2) \<noteq> None
                        \<and> links (heap t2 a2) ! j = best_child (heap t2 a2))))
     \<and> (\<forall>prompt. autoComplete t1 prompt = autoComplete t2 prompt)"
proof -
  from assms(1) have cnt: "\<forall>x. count_list ss1 x = count_list ss2 x"
    by (metis count_mset)
  from assms(2) counts_set [OF cnt] have la2: "lower_all ss2" by (simp add: lower_all_def)
  from CatsTrie_inv [OF assms(2)] obtain t1 where t1: "CatsTrie ss1 = Inr t1" "inv ss1 t1"
    by blast
  from CatsTrie_inv [OF la2] obtain t2 where t2: "CatsTrie ss2 = Inr t2" "inv ss2 t2"
    by blast
  have paths: "\<forall>p. addr (heap t1) (root t1) p = None \<longleftrightarrow> addr (heap t2) (root t2) p = None"
    using perm_paths [OF t1(2) t2(2) cnt] by simp
  have nodes: "\<forall>p a1 a2. addr (heap t1) (root t1) p = Some a1
                  \<and> addr (heap t2) (root t2) p = Some a2 \<longrightarrow>
           word_freq (heap t1 a1) = word_freq (heap t2 a2)
           \<and> (\<forall>j<27. (best_child (heap t1 a1) \<noteq> None
                        \<and> links (heap t1 a1) ! j = best_child (heap t1 a1))
                  \<longleftrightarrow> (best_child (heap t2 a2) \<noteq> None
                        \<and> links (heap t2 a2) ! j = best_child (heap t2 a2)))"
  proof (intro allI impI)
    fix p a1 a2
    assume "addr (heap t1) (root t1) p = Some a1 \<and> addr (heap t2) (root t2) p = Some a2"
    then have a: "addr (heap t1) (root t1) p = Some a1" "addr (heap t2) (root t2) p = Some a2"
      by simp_all
    from perm_node [OF t1(2) t2(2) assms(2) cnt a]
    show "word_freq (heap t1 a1) = word_freq (heap t2 a2)
           \<and> (\<forall>j<27. (best_child (heap t1 a1) \<noteq> None
                        \<and> links (heap t1 a1) ! j = best_child (heap t1 a1))
                  \<longleftrightarrow> (best_child (heap t2 a2) \<noteq> None
                        \<and> links (heap t2 a2) ! j = best_child (heap t2 a2)))"
      by simp
  qed
  have ac: "\<forall>prompt. autoComplete t1 prompt = autoComplete t2 prompt"
    using perm_autoComplete [OF t1(2) t2(2) assms(2) cnt] by simp
  from t1(1) t2(1) paths nodes ac show ?thesis by blast
qed

theorem insertion_order_independent_witness:
  "mset [''ab'', ''a'', ''b''] = mset [''b'', ''a'', ''ab''] \<and> lower_all [''ab'', ''a'', ''b'']
   \<and> (\<exists>t1 t2. CatsTrie [''ab'', ''a'', ''b''] = Inr t1 \<and> CatsTrie [''b'', ''a'', ''ab''] = Inr t2
     \<and> (\<forall>p. addr (heap t1) (root t1) p = None \<longleftrightarrow> addr (heap t2) (root t2) p = None)
     \<and> (\<forall>p a1 a2. addr (heap t1) (root t1) p = Some a1 \<and> addr (heap t2) (root t2) p = Some a2 \<longrightarrow>
           word_freq (heap t1 a1) = word_freq (heap t2 a2)
           \<and> (\<forall>j<27. (best_child (heap t1 a1) \<noteq> None
                        \<and> links (heap t1 a1) ! j = best_child (heap t1 a1))
                  \<longleftrightarrow> (best_child (heap t2 a2) \<noteq> None
                        \<and> links (heap t2 a2) ! j = best_child (heap t2 a2))))
     \<and> (\<forall>prompt. autoComplete t1 prompt = autoComplete t2 prompt))"
proof -
  have m: "mset [''ab'', ''a'', ''b''] = mset [''b'', ''a'', ''ab'']" by simp
  have la: "lower_all [''ab'', ''a'', ''b'']" by code_simp
  note r = insertion_order_independent [OF m la]
  show ?thesis by (intro conjI m la r)
qed

end
